theory Spec2Isabelle
  imports Complex_Main "HOL-Library.Word"
begin

section \<open>JavaScript numbers\<close>

text \<open>
  A JavaScript number is an IEEE 754 double, and a \<^verbatim>\<open>Float32Array\<close> holds single-precision
  numbers. \<open>round_to p emin x\<close> is the number with \<open>p\<close> significant bits and an exponent
  of at least \<open>emin\<close> that is nearest to the real \<open>x\<close>, the even one of two nearest:
  \<open>dbl\<close> rounds to a double, \<open>f32\<close> to a single. Overflow to \<^verbatim>\<open>Infinity\<close> is not
  part of the model.

  Wherever the result of an operation decides a count (of samples, of words, of frames), and
  in \<^verbatim>\<open>normalize\<close>, whose stored samples are compared with exact values, the model rounds
  as the code does: every arithmetic operation is followed by \<open>dbl\<close>, every store into a
  \<^verbatim>\<open>Float32Array\<close> by \<open>f32\<close>. Envelope amplitudes, filter and mixer outputs and drawing
  coordinates are computed in the reals. A numeric argument is meant to be a double:
  \<open>dbl (35 / 100)\<close> is the number that the literal \<^verbatim>\<open>0.35\<close> denotes.
\<close>

text \<open>The number of binary digits of \<open>n\<close>.\<close>

fun bits :: "nat \<Rightarrow> nat" where
  "bits n = (if n = 0 then 0 else Suc (bits (n div 2)))"

declare bits.simps [simp del]

text \<open>
  \<open>pow2 e\<close> is 2 to the power \<open>e\<close>, and \<open>exponent a\<close>, for a positive \<open>a\<close>, is the
  \<open>e\<close> with \<open>pow2 e \<le> a < pow2 (e + 1)\<close>.
\<close>

definition pow2 :: "int \<Rightarrow> real" where
  "pow2 e = (if 0 \<le> e then 2 ^ nat e else 1 / 2 ^ nat (- e))"

definition exponent :: "real \<Rightarrow> int" where
  "exponent a = (if 1 \<le> a then int (bits (nat \<lfloor>a\<rfloor>)) - 1
                 else - int (bits (nat (\<lceil>1 / a\<rceil> - 1))))"

text \<open>Rounding to the nearest whole number, a tie going to the even one.\<close>

definition round_even :: "real \<Rightarrow> int" where
  "round_even y =
     (let f = \<lfloor>y\<rfloor>; d = y - of_int f
      in if d < 1 / 2 then f else if 1 / 2 < d then f + 1 else if even f then f else f + 1)"

text \<open>
  Rounding to \<open>p\<close> significant bits: \<open>u\<close> is the distance between neighbouring
  representable numbers around \<open>x\<close>, which below \<open>2\<close> to the \<open>emin\<close> (the subnormal
  numbers) stays that of the smallest normal ones.
\<close>

definition round_to :: "nat \<Rightarrow> int \<Rightarrow> real \<Rightarrow> real" where
  "round_to p emin x =
     (if x = 0 then 0
      else let e = max (exponent \<bar>x\<bar>) emin;
               u = pow2 (e - int p + 1)
           in u * of_int (round_even (x / u)))"

text \<open>Doubles have 53 significant bits, singles 24.\<close>

definition dbl :: "real \<Rightarrow> real" where
  "dbl x = round_to 53 (- 1022) x"

definition f32 :: "real \<Rightarrow> real" where
  "f32 x = round_to 24 (- 126) x"


section \<open>Audio buffers\<close>

text \<open>
  The synthesizer of \<^verbatim>\<open>server/content-generator.js\<close> works on \<^verbatim>\<open>Float32Array\<close>s.
  Typed arrays are objects, so a function can return its argument itself or write into it;
  they live in a store, addressed by position, and a function that allocates returns the
  extended store.
\<close>

type_synonym samples = "real list"
type_synonym ref = nat
type_synonym heap = "samples list"

definition alloc :: "heap \<Rightarrow> samples \<Rightarrow> heap \<times> ref" where
  "alloc h xs = (h @ [xs], length h)"

definition SAMPLE_RATE :: real where
  "SAMPLE_RATE = 44100"

text \<open>The buffer that a call returned, in the store it returned.\<close>

definition buffer_of :: "heap \<times> ref \<Rightarrow> samples" where
  "buffer_of res = fst res ! snd res"

subsection \<open>normalize\<close>

text \<open>The first loop of \<^verbatim>\<open>normalize\<close>: \<^verbatim>\<open>max = Math.max(max, Math.abs(buffer[i]))\<close> from 0.\<close>

definition peak_abs :: "samples \<Rightarrow> real" where
  "peak_abs buffer = foldl (\<lambda>m x. max m \<bar>x\<bar>) 0 buffer"

text \<open>
  \<^verbatim>\<open>normalize(buffer, target = 0.95)\<close>: a call without a target passes \<open>None\<close>, and
  \<open>target_value\<close> is the value the parameter then has. When the peak is 0 the function
  returns \<^verbatim>\<open>buffer\<close>, the very same array. Otherwise \<^verbatim>\<open>scale = target / max\<close> is a double,
  and so is each product \<^verbatim>\<open>buffer[i] * scale\<close>, which the store into the new
  \<^verbatim>\<open>Float32Array\<close> rounds to a single.
\<close>

definition target_value :: "real option \<Rightarrow> real" where
  "target_value target = (case target of None \<Rightarrow> dbl (95 / 100) | Some t \<Rightarrow> t)"

definition normalize_samples :: "heap \<Rightarrow> ref \<Rightarrow> real option \<Rightarrow> heap \<times> ref" where
  "normalize_samples h buffer target =
     (let tgt = target_value target;
          mx = peak_abs (h ! buffer)
      in if mx = 0 then (h, buffer)
         else let scale = dbl (tgt / mx)
              in alloc h (map (\<lambda>x. f32 (dbl (x * scale))) (h ! buffer)))"

subsection \<open>applyEnvelope\<close>

text \<open>
  The amplitude that the loop body of \<^verbatim>\<open>applyEnvelope\<close> computes for index \<open>i\<close>. The
  sample counts are integers: \<^verbatim>\<open>sustainSamples\<close> is a difference and may be negative.
\<close>

definition envelope_amp :: "int \<Rightarrow> int \<Rightarrow> int \<Rightarrow> int \<Rightarrow> real \<Rightarrow> int \<Rightarrow> real" where
  "envelope_amp attackSamples decaySamples sustainSamples releaseSamples sustain i =
     (if i < attackSamples then of_int i / of_int attackSamples
      else if i < attackSamples + decaySamples
        then 1 - (1 - sustain) * of_int (i - attackSamples) / of_int decaySamples
      else if i < attackSamples + decaySamples + sustainSamples then sustain
      else sustain * (1 - of_int (i - attackSamples - decaySamples - sustainSamples)
                            / of_int releaseSamples))"

text \<open>
  \<^verbatim>\<open>applyEnvelope(buffer, attack, decay, sustain, release, duration)\<close>. The stage lengths
  are floors of seconds times \<^verbatim>\<open>SAMPLE_RATE\<close>, the products being doubles; \<^verbatim>\<open>duration\<close>
  is not read. The result is a new array of the length of \<^verbatim>\<open>buffer\<close>.
\<close>

definition applyEnvelope ::
  "heap \<Rightarrow> ref \<Rightarrow> real \<Rightarrow> real \<Rightarrow> real \<Rightarrow> real \<Rightarrow> real \<Rightarrow> heap \<times> ref" where
  "applyEnvelope h buffer attack decay sustain release duration =
     (let attackSamples = \<lfloor>dbl (attack * SAMPLE_RATE)\<rfloor>;
          decaySamples = \<lfloor>dbl (decay * SAMPLE_RATE)\<rfloor>;
          releaseSamples = \<lfloor>dbl (release * SAMPLE_RATE)\<rfloor>;
          sustainSamples = int (length (h ! buffer)) - attackSamples - decaySamples - releaseSamples
      in alloc h
           (map (\<lambda>i. h ! buffer ! i *
                       max 0 (envelope_amp attackSamples decaySamples sustainSamples releaseSamples
                                sustain (int i)))
                [0..<length (h ! buffer)]))"

text \<open>
  The envelope as the specification words it, for stage lengths in samples: a linear ramp
  from 0 to 1 over the \<open>A\<close> attack samples, a linear ramp from 1 to the sustain level
  \<open>s\<close> over the \<open>D\<close> decay samples, \<open>S\<close> samples flat at \<open>s\<close>, and a linear ramp
  from \<open>s\<close> to 0 over the \<open>R\<close> release samples. \<open>ramp_step\<close> is the largest
  per-sample step of the three ramps.
\<close>

definition adsr_curve :: "nat \<Rightarrow> nat \<Rightarrow> nat \<Rightarrow> nat \<Rightarrow> real \<Rightarrow> nat \<Rightarrow> real" where
  "adsr_curve A D S R s i =
     (if i < A then real i / real A
      else if i < A + D then 1 - (1 - s) * (real (i - A) / real D)
      else if i < A + D + S then s
      else s * (1 - real (i - (A + D + S)) / real R))"

definition ramp_step :: "nat \<Rightarrow> nat \<Rightarrow> nat \<Rightarrow> real \<Rightarrow> real" where
  "ramp_step A D R s =
     max (if A = 0 then 0 else 1 / real A)
         (max (if D = 0 then 0 else (1 - s) / real D) (if R = 0 then 0 else s / real R))"

subsection \<open>lowpass\<close>

text \<open>The loop \<^verbatim>\<open>result[i] = result[i - 1] + alpha * (buffer[i] - result[i - 1])\<close> from index 1.\<close>

fun lowpass_loop :: "real \<Rightarrow> real \<Rightarrow> samples \<Rightarrow> samples" where
  "lowpass_loop alpha prev [] = []"
| "lowpass_loop alpha prev (x # xs) =
     (let y = prev + alpha * (x - prev) in y # lowpass_loop alpha y xs)"

text \<open>
  \<^verbatim>\<open>lowpass(buffer, cutoff, sampleRate = SAMPLE_RATE)\<close>. On an empty buffer the write
  \<^verbatim>\<open>result[0] = buffer[0]\<close> has no effect. The coefficient is computed in the reals, which
  agrees with the source wherever \<^verbatim>\<open>cutoff\<close>, \<^verbatim>\<open>sampleRate\<close> and \<^verbatim>\<open>rc + dt\<close> are not zero.
\<close>

definition lowpass :: "heap \<Rightarrow> ref \<Rightarrow> real \<Rightarrow> real option \<Rightarrow> heap \<times> ref" where
  "lowpass h buffer cutoff sampleRate =
     (let rc = 1 / (2 * pi * cutoff);
          dt = 1 / (case sampleRate of None \<Rightarrow> SAMPLE_RATE | Some r \<Rightarrow> r);
          alpha = dt / (rc + dt)
      in alloc h (case h ! buffer of [] \<Rightarrow> [] | x # xs \<Rightarrow> x # lowpass_loop alpha x xs))"

subsection \<open>mix\<close>

text \<open>
  Reading a typed array past its end gives \<^verbatim>\<open>undefined\<close>, and arithmetic on it gives
  \<^verbatim>\<open>NaN\<close>, which every later sum keeps. The result of \<^verbatim>\<open>mix\<close> therefore holds numbers
  or \<^verbatim>\<open>NaN\<close>.
\<close>

datatype num = Num real | NaN

fun num_add :: "num \<Rightarrow> num \<Rightarrow> num" where
  "num_add (Num a) (Num b) = Num (a + b)"
| "num_add _ _ = NaN"

fun num_mul :: "num \<Rightarrow> num \<Rightarrow> num" where
  "num_mul (Num a) (Num b) = Num (a * b)"
| "num_mul _ _ = NaN"

definition element :: "real list \<Rightarrow> nat \<Rightarrow> num" where
  "element xs j = (if j < length xs then Num (xs ! j) else NaN)"

text \<open>\<^verbatim>\<open>gains ? gains[i] : 1\<close>, with \<^verbatim>\<open>gains = null\<close> as \<open>None\<close>.\<close>

definition gain_of :: "real list option \<Rightarrow> nat \<Rightarrow> num" where
  "gain_of gains i = (case gains of None \<Rightarrow> Num 1 | Some gs \<Rightarrow> element gs i)"

text \<open>One pass of the outer loop: \<^verbatim>\<open>result[j] += buffers[i][j] * gain\<close> for every \<open>j\<close>.\<close>

definition mix_pass :: "samples list \<Rightarrow> real list option \<Rightarrow> nat \<Rightarrow> num list \<Rightarrow> nat \<Rightarrow> num list" where
  "mix_pass buffers gains len result i =
     map (\<lambda>j. num_add (result ! j) (num_mul (element (buffers ! i) j) (gain_of gains i)))
         [0..<len]"

definition mix :: "samples list \<Rightarrow> real list option \<Rightarrow> num list" where
  "mix buffers gains =
     (if length buffers = 0 then []
      else let len = length (buffers ! 0)
           in foldl (mix_pass buffers gains len) (replicate len (Num 0)) [0..<length buffers])"

section \<open>The browser mixer's buffers\<close>

text \<open>
  An \<^verbatim>\<open>AudioBuffer\<close> of the Web Audio API, as \<^verbatim>\<open>AudioMixer\<close> uses it: \<^verbatim>\<open>getChannelData(c)\<close>
  returns the channel's own array, so \<open>channels\<close> holds references into the store;
  \<^verbatim>\<open>numberOfChannels\<close> is their number, \<open>frames\<close> is \<^verbatim>\<open>buffer.length\<close> and
  \<open>sample_rate\<close> is \<^verbatim>\<open>buffer.sampleRate\<close>.
\<close>

record audio_buffer =
  sample_rate :: nat
  frames :: nat
  channels :: "ref list"

definition numberOfChannels :: "audio_buffer \<Rightarrow> nat" where
  "numberOfChannels buffer = length (channels buffer)"

text \<open>
  \<^verbatim>\<open>AudioMixer._normalizeBuffer\<close>: the peak over all channels, then, when it exceeds 1,
  \<^verbatim>\<open>data[i] *= scale\<close> on every channel's own array. It returns nothing; the model returns
  the store.
\<close>

definition channels_peak :: "heap \<Rightarrow> ref list \<Rightarrow> real" where
  "channels_peak h cs = foldl (\<lambda>m c. foldl (\<lambda>m x. max m \<bar>x\<bar>) m (h ! c)) 0 cs"

definition normalizeBuffer :: "heap \<Rightarrow> audio_buffer \<Rightarrow> heap" where
  "normalizeBuffer h buffer =
     (let mx = channels_peak h (channels buffer)
      in if mx > 1
         then let scale = (99 / 100) / mx
              in foldl (\<lambda>h c. h[c := map (\<lambda>x. x * scale) (h ! c)]) h (channels buffer)
         else h)"

section \<open>The avatar\<close>

text \<open>
  \<^verbatim>\<open>KiarosXAvatar\<close>: the table \<^verbatim>\<open>this.states\<close> and the fields that \<^verbatim>\<open>setState\<close>,
  \<^verbatim>\<open>getState\<close> and \<^verbatim>\<open>update\<close> read and write.
\<close>

record state_config =
  rotationSpeed :: real
  pulseDuration :: real
  particleCount :: nat
  particleSpeed :: real
  glowIntensity :: real
  latticeBrightness :: real
  energySpikes :: bool

definition idle :: state_config where
  "idle = \<lparr>rotationSpeed = 5 / 1000, pulseDuration = 4200, particleCount = 12,
            particleSpeed = 3 / 10, glowIntensity = 4 / 10, latticeBrightness = 6 / 10,
            energySpikes = False\<rparr>"

definition talking :: state_config where
  "talking = \<lparr>rotationSpeed = 15 / 1000, pulseDuration = 1800, particleCount = 20,
               particleSpeed = 8 / 10, glowIntensity = 8 / 10, latticeBrightness = 1,
               energySpikes = False\<rparr>"

definition executing :: state_config where
  "executing = \<lparr>rotationSpeed = 35 / 1000, pulseDuration = 900, particleCount = 35,
                 particleSpeed = 15 / 10, glowIntensity = 1, latticeBrightness = 1,
                 energySpikes = True\<rparr>"

text \<open>
  \<^verbatim>\<open>this.states\<close> is an object literal, and \<^verbatim>\<open>this.states[state]\<close> is a property lookup:
  first the three own properties, then the properties every object inherits from
  \<^verbatim>\<open>Object.prototype\<close>, which are functions (an object for \<^verbatim>\<open>__proto__\<close>), hence truthy
  values without any of the configuration fields. Any other name gives \<^verbatim>\<open>undefined\<close>.
\<close>

datatype state_entry = Config state_config | Inherited string

definition object_prototype_keys :: "string list" where
  "object_prototype_keys =
     [''constructor'', ''__defineGetter__'', ''__defineSetter__'', ''hasOwnProperty'',
      ''__lookupGetter__'', ''__lookupSetter__'', ''isPrototypeOf'', ''propertyIsEnumerable'',
      ''toString'', ''valueOf'', ''__proto__'', ''toLocaleString'']"

definition states :: "string \<Rightarrow> state_entry option" where
  "states state =
     (if state = ''idle'' then Some (Config idle)
      else if state = ''talking'' then Some (Config talking)
      else if state = ''executing'' then Some (Config executing)
      else if state \<in> set object_prototype_keys then Some (Inherited state)
      else None)"

text \<open>
  Reading a field of the active configuration: a number for a configuration, \<^verbatim>\<open>undefined\<close>
  for an inherited value, which arithmetic turns into \<^verbatim>\<open>NaN\<close> and a condition takes as
  false; as the bound \<^verbatim>\<open>activeParticles\<close> of the particle loop it makes \<^verbatim>\<open>i < undefined\<close>
  false, so that the loop does not run.
\<close>

definition config_num :: "(state_config \<Rightarrow> real) \<Rightarrow> state_entry \<Rightarrow> num" where
  "config_num field entry = (case entry of Config c \<Rightarrow> Num (field c) | Inherited _ \<Rightarrow> NaN)"

definition spikes_on :: "state_entry \<Rightarrow> bool" where
  "spikes_on entry = (case entry of Config c \<Rightarrow> energySpikes c | Inherited _ \<Rightarrow> False)"

text \<open>Division of numbers; the divisor here is a pulse duration of the table, never 0.\<close>

fun num_div :: "num \<Rightarrow> num \<Rightarrow> num" where
  "num_div (Num a) (Num b) = (if b = 0 then NaN else Num (a / b))"
| "num_div _ _ = NaN"

record particle =
  angle :: real
  distance :: num
  speed :: real
  particle_size :: real
  phase :: real

record wave =
  wave_radius :: num
  opacity :: real
  expansionRate :: real
  isSpike :: bool

record avatar =
  currentState :: string
  stateConfig :: state_entry
  pulsePhase :: num
  rotationAngle :: num
  time :: real
  particles :: "particle list"
  soundWaves :: "wave list"
  radius :: num

text \<open>\<^verbatim>\<open>Math.max\<close> of the three particle counts, as \<^verbatim>\<open>initParticles\<close> computes it.\<close>

definition maxParticles :: nat where
  "maxParticles = max (particleCount idle) (max (particleCount talking) (particleCount executing))"

text \<open>
  \<^verbatim>\<open>initParticles\<close>. \<open>rnd k\<close> is the value of the \<open>k\<close>-th call of \<^verbatim>\<open>Math.random()\<close>; a
  particle draws its distance, speed, size and phase in this order.
\<close>

definition initParticles :: "(nat \<Rightarrow> real) \<Rightarrow> avatar \<Rightarrow> avatar" where
  "initParticles rnd a =
     a\<lparr>particles :=
         map (\<lambda>i. \<lparr>angle = (pi * 2 * real i) / real maxParticles,
                    distance = num_mul (radius a) (Num (11 / 10 + rnd (4 * i) * (4 / 10))),
                    speed = 2 / 100 + rnd (4 * i + 1) * (3 / 100),
                    particle_size = 1 + rnd (4 * i + 2) * 2,
                    phase = rnd (4 * i + 3) * pi * 2\<rparr>)
             [0..<maxParticles]\<rparr>"

text \<open>
  The constructor up to its last statement, as far as these fields go: it calls
  \<^verbatim>\<open>initParticles\<close> before \<^verbatim>\<open>updatePosition\<close> has given \<^verbatim>\<open>this.radius\<close> its value
  \<^verbatim>\<open>config.size / 2 = 40\<close>. Its last statement, \<^verbatim>\<open>this.start()\<close>, renders a first frame,
  which is a call of \<^verbatim>\<open>update\<close> like every later one.
\<close>

definition new_avatar :: "(nat \<Rightarrow> real) \<Rightarrow> avatar" where
  "new_avatar rnd =
     (initParticles rnd
        \<lparr>currentState = ''idle'', stateConfig = Config idle, pulsePhase = Num 0,
         rotationAngle = Num 0, time = 0, particles = [], soundWaves = [], radius = NaN\<rparr>)
     \<lparr>radius := Num 40\<rparr>"

text \<open>
  \<^verbatim>\<open>setState\<close> returns nothing and throws nothing. The model returns the lines it writes
  with \<^verbatim>\<open>console.warn\<close> and the avatar after the call.
\<close>

definition setState :: "avatar \<Rightarrow> string \<Rightarrow> string list \<times> avatar" where
  "setState a state =
     (case states state of
        None \<Rightarrow> ([''Unknown state: '' @ state], a)
      | Some entry \<Rightarrow> ([], a\<lparr>currentState := state, stateConfig := entry, pulsePhase := Num 0\<rparr>))"

definition getState :: "avatar \<Rightarrow> string" where
  "getState a = currentState a"

text \<open>
  The body of the particle loop of \<^verbatim>\<open>update\<close>, for one particle. The loop runs only
  when the active configuration has a particle count, so it reads its \<^verbatim>\<open>particleSpeed\<close>
  from a configuration \<open>c\<close>.
\<close>

definition advance :: "state_config \<Rightarrow> avatar \<Rightarrow> particle \<Rightarrow> particle" where
  "advance c a p =
     p\<lparr>angle := angle p + speed p * particleSpeed c,
       distance := num_mul (radius a) (Num (11 / 10 + sin (time a * (1 / 1000) + phase p) * (15 / 100)))\<rparr>"

datatype error = TypeError | RangeError

text \<open>
  The particle loop \<^verbatim>\<open>for (i = 0; i < activeParticles; i++)\<close>: reading a field of
  \<^verbatim>\<open>this.particles[i]\<close> beyond the end of the array throws a \<^verbatim>\<open>TypeError\<close>.
\<close>

fun advance_particles :: "(particle \<Rightarrow> particle) \<Rightarrow> nat \<Rightarrow> particle list \<Rightarrow> error + particle list" where
  "advance_particles f 0 ps = Inr ps"
| "advance_particles f (Suc n) [] = Inl TypeError"
| "advance_particles f (Suc n) (p # ps) =
     (case advance_particles f n ps of Inl e \<Rightarrow> Inl e | Inr ps' \<Rightarrow> Inr (f p # ps'))"

text \<open>The callback of \<^verbatim>\<open>soundWaves.filter\<close>: it moves the wave, then keeps it while visible.\<close>

definition expand_wave :: "real \<Rightarrow> wave \<Rightarrow> wave" where
  "expand_wave deltaTime w =
     w\<lparr>wave_radius := num_add (wave_radius w) (Num (expansionRate w * (deltaTime * (6 / 100)))),
       opacity := opacity w - (2 / 100) * (deltaTime * (6 / 100))\<rparr>"

text \<open>
  \<^verbatim>\<open>update(deltaTime)\<close>. \<open>r_wave\<close> and \<open>r_spike\<close> are the values of the two calls of
  \<^verbatim>\<open>Math.random()\<close>, read only where the source makes the call.
\<close>

definition update :: "avatar \<Rightarrow> real \<Rightarrow> real \<Rightarrow> real \<Rightarrow> error + avatar" where
  "update a deltaTime r_wave r_spike =
     (let a1 = a\<lparr>time := time a + deltaTime\<rparr>;
          a2 = a1\<lparr>rotationAngle :=
                    num_add (rotationAngle a1)
                      (num_mul (num_mul (config_num rotationSpeed (stateConfig a1)) (Num deltaTime))
                               (Num (6 / 100)))\<rparr>;
          a3 = a2\<lparr>pulsePhase :=
                    num_add (pulsePhase a2)
                      (num_mul (num_mul (num_div (Num deltaTime)
                                                 (config_num pulseDuration (stateConfig a2)))
                                        (Num pi))
                               (Num 2))\<rparr>;
          moved = (case stateConfig a3 of
                     Config c \<Rightarrow> advance_particles (advance c a3) (particleCount c) (particles a3)
                   | Inherited _ \<Rightarrow> Inr (particles a3))
      in case moved of
           Inl e \<Rightarrow> Inl e
         | Inr ps \<Rightarrow>
             let a4 = a3\<lparr>particles := ps\<rparr>;
                 a5 = (if currentState a4 = ''talking'' \<and> r_wave < 5 / 100
                       then a4\<lparr>soundWaves := soundWaves a4 @
                              [\<lparr>wave_radius = radius a4, opacity = 1, expansionRate = 2,
                                isSpike = False\<rparr>]\<rparr>
                       else a4);
                 a6 = a5\<lparr>soundWaves :=
                           filter (\<lambda>w. opacity w > 0) (map (expand_wave deltaTime) (soundWaves a5))\<rparr>
             in Inr (if spikes_on (stateConfig a6) \<and> r_spike < 1 / 10
                     then a6\<lparr>soundWaves := soundWaves a6 @
                            [\<lparr>wave_radius = radius a6, opacity = 8 / 10, expansionRate = 4,
                              isSpike = True\<rparr>]\<rparr>
                     else a6))"

text \<open>An avatar as the constructor makes it when every call of \<^verbatim>\<open>Math.random()\<close> gives 0.5.\<close>

definition half :: "nat \<Rightarrow> real" where
  "half k = 1 / 2"

definition sample_avatar :: avatar where
  "sample_avatar = new_avatar half"

section \<open>Captions\<close>

text \<open>\<^verbatim>\<open>caption.split(' ')\<close>: every single space separates; the empty string has one (empty) word.\<close>

fun split_space :: "string \<Rightarrow> string list" where
  "split_space [] = [[]]"
| "split_space (c # cs) =
     (if c = CHR '' '' then [] # split_space cs
      else (case split_space cs of [] \<Rightarrow> [[c]] | w # ws \<Rightarrow> (c # w) # ws))"

text \<open>\<^verbatim>\<open>words.join(' ')\<close>.\<close>

fun join_space :: "string list \<Rightarrow> string" where
  "join_space [] = []"
| "join_space [w] = w"
| "join_space (w # ws) = w @ '' '' @ join_space ws"

text \<open>
  \<^verbatim>\<open>words.slice(0, end)\<close> for an integral \<^verbatim>\<open>end\<close>: a negative end counts from the end of the
  array, and the end is clamped to the array.
\<close>

definition slice0 :: "'a list \<Rightarrow> int \<Rightarrow> 'a list" where
  "slice0 xs e =
     take (nat (if e < 0 then max (int (length xs) + e) 0 else min e (int (length xs)))) xs"

subsection \<open>The batch renderer, \<^verbatim>\<open>generate-samples-final.js\<close>\<close>

text \<open>
  \<^verbatim>\<open>drawCaption(ctx, caption, frameNum, totalFrames, width, height)\<close> up to the visible text.
  \<^verbatim>\<open>generateVideo\<close> calls it with \<^verbatim>\<open>frameNum < totalFrames\<close>, so \<^verbatim>\<open>totalFrames\<close> is positive
  there. The quotient \<^verbatim>\<open>words.length / totalFrames\<close> and the product
  \<^verbatim>\<open>frameNum * wordsPerFrame\<close> are doubles.
\<close>

definition visibleWordCount :: "string \<Rightarrow> nat \<Rightarrow> real \<Rightarrow> int" where
  "visibleWordCount caption frameNum totalFrames =
     (let words = split_space caption;
          wordsPerFrame = dbl (real (length words) / totalFrames)
      in min (\<lfloor>dbl (real frameNum * wordsPerFrame)\<rfloor> + 3) (int (length words)))"

definition visibleWords :: "string \<Rightarrow> nat \<Rightarrow> real \<Rightarrow> string list" where
  "visibleWords caption frameNum totalFrames =
     slice0 (split_space caption) (visibleWordCount caption frameNum totalFrames)"

definition visibleText :: "string \<Rightarrow> nat \<Rightarrow> real \<Rightarrow> string" where
  "visibleText caption frameNum totalFrames = join_space (visibleWords caption frameNum totalFrames)"

subsection \<open>The browser renderer, \<^verbatim>\<open>VideoRenderer\<close>\<close>

text \<open>\<^verbatim>\<open>this.textSpeed = options.textSpeed || 50\<close>, milliseconds per word.\<close>

definition textSpeed_of :: "real option \<Rightarrow> real" where
  "textSpeed_of opt = (case opt of None \<Rightarrow> 50 | Some v \<Rightarrow> if v = 0 then 50 else v)"

text \<open>
  \<^verbatim>\<open>VideoRenderer.drawCaption(elapsedTime)\<close> up to \<^verbatim>\<open>textToShow\<close>, for a caption that is not
  empty (an empty one returns at once): the words shown in typewriter mode, and the text.
  The quotient \<^verbatim>\<open>elapsedTime / this.textSpeed\<close> is a double.
\<close>

definition wordsToShow :: "string \<Rightarrow> real \<Rightarrow> real \<Rightarrow> string list" where
  "wordsToShow caption textSpeed elapsedTime =
     slice0 (split_space caption) \<lfloor>dbl (elapsedTime / textSpeed)\<rfloor>"

definition textToShow :: "string \<Rightarrow> string \<Rightarrow> real \<Rightarrow> real \<Rightarrow> string" where
  "textToShow caption textAnimation textSpeed elapsedTime =
     (if textAnimation = ''typewriter''
      then join_space (wordsToShow caption textSpeed elapsedTime)
      else caption)"

section \<open>WAV export\<close>

text \<open>
  Both exporters fill a byte buffer that starts as zeros. Bytes are 8-bit words; a number
  is stored little-endian, byte \<open>i\<close> being the number divided by \<open>256 ^ i\<close>, cut to 8 bits
  (two's complement for a negative number).
\<close>

type_synonym byte = "8 word"

definition le_bytes :: "nat \<Rightarrow> int \<Rightarrow> byte list" where
  "le_bytes k v = map (\<lambda>i. word_of_int (v div 256 ^ i)) [0..<k]"

definition char_codes :: "string \<Rightarrow> byte list" where
  "char_codes str = map (\<lambda>c. of_nat (of_char c)) str"

text \<open>Overwriting the bytes of \<open>buf\<close> from offset \<open>off\<close> with \<open>bs\<close>.\<close>

definition put :: "byte list \<Rightarrow> nat \<Rightarrow> byte list \<Rightarrow> byte list" where
  "put buf off bs = take off buf @ bs @ drop (off + length bs) buf"

text \<open>The signed 16-bit number that a decoder reads from a low and a high byte.\<close>

definition int16_of :: "byte list \<Rightarrow> int" where
  "int16_of bs = (let u = uint (bs ! 0) + 256 * uint (bs ! 1) in if u < 32768 then u else u - 65536)"

subsection \<open>\<^verbatim>\<open>writeWav\<close> of the server, on a Node \<^verbatim>\<open>Buffer\<close>\<close>

text \<open>
  The writing methods of \<^verbatim>\<open>Buffer\<close> throw a \<^verbatim>\<open>RangeError\<close> for a value outside the range of
  the field or an offset outside the buffer; once one has thrown, nothing more is written.
  \<^verbatim>\<open>buffer.write\<close> stores as much of the string as fits.
\<close>

definition Buffer_alloc :: "nat \<Rightarrow> error + byte list" where
  "Buffer_alloc n = Inr (replicate n 0)"

definition buffer_write :: "string \<Rightarrow> nat \<Rightarrow> error + byte list \<Rightarrow> error + byte list" where
  "buffer_write str off b =
     (case b of Inl e \<Rightarrow> Inl e
      | Inr buf \<Rightarrow> if off \<le> length buf
                   then Inr (put buf off (take (length buf - off) (char_codes str)))
                   else Inl RangeError)"

definition writeUInt32LE :: "int \<Rightarrow> nat \<Rightarrow> error + byte list \<Rightarrow> error + byte list" where
  "writeUInt32LE v off b =
     (case b of Inl e \<Rightarrow> Inl e
      | Inr buf \<Rightarrow> if 0 \<le> v \<and> v \<le> 4294967295 \<and> off + 4 \<le> length buf
                   then Inr (put buf off (le_bytes 4 v)) else Inl RangeError)"

definition writeUInt16LE :: "int \<Rightarrow> nat \<Rightarrow> error + byte list \<Rightarrow> error + byte list" where
  "writeUInt16LE v off b =
     (case b of Inl e \<Rightarrow> Inl e
      | Inr buf \<Rightarrow> if 0 \<le> v \<and> v \<le> 65535 \<and> off + 2 \<le> length buf
                   then Inr (put buf off (le_bytes 2 v)) else Inl RangeError)"

definition writeInt16LE :: "int \<Rightarrow> nat \<Rightarrow> error + byte list \<Rightarrow> error + byte list" where
  "writeInt16LE v off b =
     (case b of Inl e \<Rightarrow> Inl e
      | Inr buf \<Rightarrow> if - 32768 \<le> v \<and> v \<le> 32767 \<and> off + 2 \<le> length buf
                   then Inr (put buf off (le_bytes 2 v)) else Inl RangeError)"

text \<open>
  \<^verbatim>\<open>Math.max(-32768, Math.min(32767, Math.floor(channel[i] * 32767)))\<close>. A sample read
  beyond the end of its channel is \<^verbatim>\<open>undefined\<close> and the expression is \<^verbatim>\<open>NaN\<close>, which passes
  the range check of \<^verbatim>\<open>writeInt16LE\<close> and is stored as two zero bytes, as 0 is.
\<close>

definition wav_sample :: "num \<Rightarrow> int" where
  "wav_sample v = (case v of Num x \<Rightarrow> max (- 32768) (min 32767 \<lfloor>x * 32767\<rfloor>) | NaN \<Rightarrow> 0)"

text \<open>The body of the sample loop of \<^verbatim>\<open>writeWav\<close> for index \<open>i\<close>.\<close>

definition wav_step :: "samples \<Rightarrow> samples \<Rightarrow> error + byte list \<Rightarrow> nat \<Rightarrow> error + byte list" where
  "wav_step leftChannel rightChannel b i =
     (let left = wav_sample (element leftChannel i);
          right = wav_sample (element rightChannel i)
      in writeInt16LE right (44 + i * 4 + 2) (writeInt16LE left (44 + i * 4) b))"

text \<open>\<^verbatim>\<open>writeWav(leftChannel, rightChannel, sampleRate = SAMPLE_RATE)\<close>.\<close>

definition writeWav :: "samples \<Rightarrow> samples \<Rightarrow> nat option \<Rightarrow> error + byte list" where
  "writeWav leftChannel rightChannel sampleRate =
     (let rate = (case sampleRate of None \<Rightarrow> 44100 | Some r \<Rightarrow> int r);
          len = length leftChannel;
          b0 = Buffer_alloc (44 + len * 4);
          b1 = buffer_write ''RIFF'' 0 b0;
          b2 = writeUInt32LE (36 + int len * 4) 4 b1;
          b3 = buffer_write ''WAVE'' 8 b2;
          b4 = buffer_write ''fmt '' 12 b3;
          b5 = writeUInt32LE 16 16 b4;
          b6 = writeUInt16LE 1 20 b5;
          b7 = writeUInt16LE 2 22 b6;
          b8 = writeUInt32LE rate 24 b7;
          b9 = writeUInt32LE (rate * 4) 28 b8;
          b10 = writeUInt16LE 4 32 b9;
          b11 = writeUInt16LE 16 34 b10;
          b12 = buffer_write ''data'' 36 b11;
          b13 = writeUInt32LE (int len * 4) 40 b12
      in foldl (wav_step leftChannel rightChannel) b13 [0..<len])"

text \<open>
  The layout the specification asks for, for two channels of 16 bits: the 44-byte header,
  and the four bytes of frame \<open>i\<close>, the left sample before the right one.
\<close>

definition wav_header :: "int \<Rightarrow> int \<Rightarrow> byte list" where
  "wav_header rate dataLength =
     char_codes ''RIFF'' @ le_bytes 4 (36 + dataLength) @ char_codes ''WAVE'' @
     char_codes ''fmt '' @ le_bytes 4 16 @ le_bytes 2 1 @ le_bytes 2 2 @ le_bytes 4 rate @
     le_bytes 4 (rate * 4) @ le_bytes 2 4 @ le_bytes 2 16 @
     char_codes ''data'' @ le_bytes 4 dataLength"

definition wav_frame :: "samples \<Rightarrow> samples \<Rightarrow> nat \<Rightarrow> byte list" where
  "wav_frame l r i = le_bytes 2 (wav_sample (element l i)) @ le_bytes 2 (wav_sample (element r i))"

subsection \<open>\<^verbatim>\<open>AudioMixer._bufferToWav\<close> of the browser, on a \<^verbatim>\<open>DataView\<close>\<close>

text \<open>
  The setters of a \<^verbatim>\<open>DataView\<close> convert the number to the width of the field (modulo
  \<open>2 ^ 32\<close> or \<open>2 ^ 16\<close>, which the little-endian bytes are) and throw only for an offset
  outside the buffer, which no write of \<^verbatim>\<open>_bufferToWav\<close> has: every offset lies within the
  \<open>44 + dataLength\<close> bytes allocated.
\<close>

definition setUint32 :: "nat \<Rightarrow> int \<Rightarrow> byte list \<Rightarrow> byte list" where
  "setUint32 off v view = put view off (le_bytes 4 v)"

definition setUint16 :: "nat \<Rightarrow> int \<Rightarrow> byte list \<Rightarrow> byte list" where
  "setUint16 off v view = put view off (le_bytes 2 v)"

definition setInt16 :: "nat \<Rightarrow> int \<Rightarrow> byte list \<Rightarrow> byte list" where
  "setInt16 off v view = put view off (le_bytes 2 v)"

definition writeString :: "byte list \<Rightarrow> nat \<Rightarrow> string \<Rightarrow> byte list" where
  "writeString view off str = put view off (char_codes str)"

text \<open>
  \<^verbatim>\<open>sample = Math.max(-1, Math.min(1, channels[channel][i]))\<close>, then
  \<^verbatim>\<open>intSample = sample < 0 ? sample * 0x8000 : sample * 0x7FFF\<close>, which \<^verbatim>\<open>setInt16\<close> truncates
  towards zero. \<^verbatim>\<open>NaN\<close> is stored as 0.
\<close>

definition int_sample :: "num \<Rightarrow> int" where
  "int_sample v =
     (case v of
        Num x \<Rightarrow>
          (let sample = max (- 1) (min 1 x);
               intSample = (if sample < 0 then sample * 32768 else sample * 32767)
           in if intSample < 0 then \<lceil>intSample\<rceil> else \<lfloor>intSample\<rfloor>)
      | NaN \<Rightarrow> 0)"

text \<open>
  The inner loop over the channels for frame \<open>i\<close>, on the view and the running \<^verbatim>\<open>index\<close>,
  and \<^verbatim>\<open>_bufferToWav\<close> itself.
\<close>

definition write_frame :: "heap \<Rightarrow> ref list \<Rightarrow> byte list \<times> nat \<Rightarrow> nat \<Rightarrow> byte list \<times> nat" where
  "write_frame h chans st i =
     foldl (\<lambda>(view, index) channel.
              (setInt16 (44 + index) (int_sample (element (h ! channel) i)) view, index + 2))
           st chans"

definition bufferToWav :: "heap \<Rightarrow> audio_buffer \<Rightarrow> byte list" where
  "bufferToWav h buffer =
     (let numChannels = int (numberOfChannels buffer);
          format = 1;
          bitDepth = 16;
          bytesPerSample = bitDepth div 8;
          blockAlign = numChannels * bytesPerSample;
          dataLength = int (frames buffer) * blockAlign;
          bufferLength = 44 + dataLength;
          v0 = replicate (nat bufferLength) 0;
          v1 = writeString v0 0 ''RIFF'';
          v2 = setUint32 4 (36 + dataLength) v1;
          v3 = writeString v2 8 ''WAVE'';
          v4 = writeString v3 12 ''fmt '';
          v5 = setUint32 16 16 v4;
          v6 = setUint16 20 format v5;
          v7 = setUint16 22 numChannels v6;
          v8 = setUint32 24 (int (sample_rate buffer)) v7;
          v9 = setUint32 28 (int (sample_rate buffer) * blockAlign) v8;
          v10 = setUint16 32 blockAlign v9;
          v11 = setUint16 34 bitDepth v10;
          v12 = writeString v11 36 ''data'';
          v13 = setUint32 40 dataLength v12
      in fst (foldl (write_frame h (channels buffer)) (v13, 0) [0..<frames buffer]))"

text \<open>
  The frame that \<^verbatim>\<open>_bufferToWav\<close> writes for index \<open>i\<close>, one 16-bit sample per channel in
  the order of the channels; and, for the proofs, a buffer whose first bytes are \<open>pre\<close> and
  whose other \<open>k\<close> bytes are still zero.
\<close>

definition frame_bytes :: "heap \<Rightarrow> ref list \<Rightarrow> nat \<Rightarrow> byte list" where
  "frame_bytes h chans i = concat (map (\<lambda>c. le_bytes 2 (int_sample (element (h ! c) i))) chans)"

definition filled :: "byte list \<Rightarrow> nat \<Rightarrow> byte list" where
  "filled pre k = pre @ replicate k 0"

section \<open>Batch rendering of a video, \<^verbatim>\<open>generate-samples-final.js\<close>\<close>

text \<open>
  The frames are drawn on a canvas, which is outside the program. What the canvas shows
  when a frame is saved is determined by the calls it has received since it was created, so
  a frame is modelled as the list of the calls made while it is drawn. A fill or stroke
  style is a colour or a linear gradient with its colour stops.
\<close>

datatype style = Color string | LinearGradient real real real real "(real \<times> string) list"

datatype call =
    ClearRect real real real real
  | FillStyle style
  | StrokeStyle style
  | LineWidth real
  | LineJoin string
  | GlobalAlpha real
  | Font string
  | TextAlign string
  | FillRect real real real real
  | StrokeRect real real real real
  | BeginPath
  | MoveTo real real
  | LineTo real real
  | Arc real real real real real
  | Ellipse real real real real real real real
  | Fill
  | Stroke
  | Clip
  | Save
  | Restore
  | StrokeText string real real
  | FillText string real real

text \<open>
  The background of a video configuration: \<^verbatim>\<open>type\<close> is \<^verbatim>\<open>gradient\<close> with its two colours,
  \<^verbatim>\<open>dark-pattern\<close>, \<^verbatim>\<open>tech-grid\<close>, or anything else, for which nothing is drawn.
\<close>

datatype background = Gradient string string | DarkPattern | TechGrid | OtherType string

text \<open>The fields \<^verbatim>\<open>id\<close>, \<^verbatim>\<open>title\<close>, \<^verbatim>\<open>caption\<close>, \<^verbatim>\<open>background\<close> and \<^verbatim>\<open>duration\<close> of a configuration.\<close>

record video_config =
  cfg_id :: string
  cfg_title :: string
  cfg_caption :: string
  cfg_background :: background
  cfg_duration :: real

text \<open>
  A loop \<^verbatim>\<open>for (x = a; x < b; x += s)\<close> over whole numbers: the values of \<open>x\<close>. The steps
  of the source are positive constants.
\<close>

function stepped :: "nat \<Rightarrow> nat \<Rightarrow> nat \<Rightarrow> nat list" where
  "stepped a s b = (if a < b \<and> 0 < s then a # stepped (a + s) s b else [])"
  by pat_completeness auto
termination
  by (relation "measure (\<lambda>(a, s, b). b - a)") auto

declare stepped.simps [simp del]

text \<open>The remainder \<^verbatim>\<open>a % b\<close> of JavaScript numbers, whose quotient is cut towards zero.\<close>

definition js_rem :: "real \<Rightarrow> real \<Rightarrow> real" where
  "js_rem a b = a - b * of_int (if a / b < 0 then \<lceil>a / b\<rceil> else \<lfloor>a / b\<rfloor>)"

text \<open>\<^verbatim>\<open>drawBackground(ctx, width, height, background, progress)\<close>.\<close>

definition drawBackground :: "nat \<Rightarrow> nat \<Rightarrow> background \<Rightarrow> real \<Rightarrow> call list" where
  "drawBackground width height bg progress =
     (case bg of
        Gradient c0 c1 \<Rightarrow>
          [FillStyle (LinearGradient 0 0 0 (real height) [(0, c0), (1, c1)]),
           FillRect 0 0 (real width) (real height)]
      | DarkPattern \<Rightarrow>
          [FillStyle (Color ''#0f0f1a''), FillRect 0 0 (real width) (real height),
           StrokeStyle (Color ''rgba(255, 255, 255, 0.05)''), LineWidth 2]
          @ concat (map (\<lambda>i. let y = js_rem (real i * 140 + progress * 200) (real height + 200) - 100
                                in [BeginPath, MoveTo 0 y, LineTo (real width) (y + 80), Stroke])
                        [0..<15])
          @ [StrokeStyle (Color ''rgba(79, 70, 229, 0.1)''), LineWidth 3]
          @ map (\<lambda>i. let x = js_rem (real i * 250 + 100) (real width);
                           y = js_rem (real i * 350 + 200) (real height);
                           size = 50 + sin (progress * pi * 2 + real i) * 20
                       in StrokeRect (x - size / 2) (y - size / 2) size size)
                [0..<5]
      | TechGrid \<Rightarrow>
          (let gridSize = 60 in
           [FillStyle (Color ''#0a0a12''), FillRect 0 0 (real width) (real height),
            StrokeStyle (Color ''rgba(6, 182, 212, 0.15)''), LineWidth 1]
           @ concat (map (\<lambda>x. [BeginPath, MoveTo (real x) 0, LineTo (real x) (real height), Stroke])
                         (stepped 0 gridSize (width + 1)))
           @ concat (map (\<lambda>y. let offset = js_rem (real y + progress * real gridSize) (real height)
                                 in [BeginPath, MoveTo 0 offset, LineTo (real width) offset, Stroke])
                         (stepped 0 gridSize (height + 1)))
           @ [FillStyle (Color ''rgba(6, 182, 212, 0.3)'')]
           @ concat (map (\<lambda>x.
                 concat (map (\<lambda>y. let pulse = sin (progress * pi * 4 + real x * (1 / 100)
                                                       + real y * (1 / 100)) * (1 / 2) + 1 / 2
                                     in [GlobalAlpha (2 / 10 + pulse * (3 / 10)), BeginPath,
                                         Arc (real x) (real y) (4 * pulse) 0 (pi * 2), Fill])
                             (stepped gridSize (gridSize * 3) height)))
                 (stepped gridSize (gridSize * 3) width))
           @ [GlobalAlpha 1])
      | OtherType _ \<Rightarrow> [])"

text \<open>
  \<^verbatim>\<open>wrapText(ctx, text, maxWidth)\<close>. \<open>textWidth\<close> gives the width that \<^verbatim>\<open>ctx.measureText\<close> reports
  for a string in the caption font: it belongs to the canvas and its fonts.
\<close>

fun wrap_loop :: "(string \<Rightarrow> real) \<Rightarrow> real \<Rightarrow> string \<Rightarrow> string list \<Rightarrow> string list" where
  "wrap_loop textWidth maxWidth currentLine [] = [currentLine]"
| "wrap_loop textWidth maxWidth currentLine (word # ws) =
     (if textWidth (currentLine @ '' '' @ word) < maxWidth
      then wrap_loop textWidth maxWidth (currentLine @ '' '' @ word) ws
      else currentLine # wrap_loop textWidth maxWidth word ws)"

definition wrapText :: "(string \<Rightarrow> real) \<Rightarrow> string \<Rightarrow> real \<Rightarrow> string list" where
  "wrapText textWidth text maxWidth =
     (case split_space text of [] \<Rightarrow> [] | w # ws \<Rightarrow> wrap_loop textWidth maxWidth w ws)"

text \<open>\<^verbatim>\<open>drawCaption(ctx, caption, frameNum, totalFrames, width, height)\<close>.\<close>

definition drawCaption :: "(string \<Rightarrow> real) \<Rightarrow> string \<Rightarrow> nat \<Rightarrow> real \<Rightarrow> nat \<Rightarrow> nat \<Rightarrow> call list" where
  "drawCaption textWidth cap frameNum totalFrames width height =
     (let maxWidth = 950;
          x = real width / 2;
          y = real height - 350;
          lineHeight = 70;
          lines = wrapText textWidth (visibleText cap frameNum totalFrames) maxWidth
      in [Font ''bold 52px Arial, sans-serif'', TextAlign ''center'',
          LineWidth 10, StrokeStyle (Color ''#000000''), LineJoin ''round'']
         @ map (\<lambda>i. StrokeText (lines ! i) x (y + real i * lineHeight)) [0..<length lines]
         @ [FillStyle (Color ''#ffffff'')]
         @ map (\<lambda>i. FillText (lines ! i) x (y + real i * lineHeight)) [0..<length lines])"

text \<open>\<^verbatim>\<open>drawAvatar(ctx, x, y, size, frameNum)\<close>, with \<open>side\<close> for \<^verbatim>\<open>size\<close>.\<close>

definition drawAvatar :: "real \<Rightarrow> real \<Rightarrow> real \<Rightarrow> nat \<Rightarrow> call list" where
  "drawAvatar x y side frameNum =
     (let talkPhase = sin (real frameNum * (3 / 10)) * (1 / 2) + 1 / 2;
          pulseSize = sin (real frameNum * (15 / 100)) * 3
      in [Save, BeginPath, Arc (x + side / 2) (y + side / 2) (side / 2) 0 (pi * 2), Clip,
          FillStyle (LinearGradient x y x (y + side) [(0, ''#4a90d9''), (1, ''#2c5aa0'')]),
          FillRect x y side side,
          FillStyle (Color ''#ffffff''), BeginPath,
          Arc (x + side * (35 / 100)) (y + side * (35 / 100)) (side * (1 / 10)) 0 (pi * 2),
          Arc (x + side * (65 / 100)) (y + side * (35 / 100)) (side * (1 / 10)) 0 (pi * 2),
          Fill,
          FillStyle (Color ''#ffffff''), BeginPath,
          Ellipse (x + side * (1 / 2)) (y + side * (65 / 100)) (side * (15 / 100))
                  (side * (8 / 100) * talkPhase + 2) 0 0 (pi * 2),
          Fill, Restore,
          StrokeStyle (Color ''#4a90d9''), LineWidth 3, BeginPath,
          Arc (x + side / 2) (y + side / 2) (side / 2 + 5 + pulseSize) 0 (pi * 2), Stroke])"

text \<open>
  What a run of \<^verbatim>\<open>generateVideo\<close> can read besides its argument: the wall clock, which
  \<^verbatim>\<open>new Date()\<close> reads, and the text measure of the canvas.
\<close>

record environment =
  clock :: string
  measureText :: "string \<Rightarrow> real"

text \<open>
  \<^verbatim>\<open>const fps = 30\<close> and \<^verbatim>\<open>const totalFrames = duration * fps\<close> of \<^verbatim>\<open>generateVideo\<close>: the
  frame rate is not a field of the configuration, and the product is a double.
\<close>

definition fps :: nat where
  "fps = 30"

definition totalFrames :: "video_config \<Rightarrow> real" where
  "totalFrames cfg = dbl (cfg_duration cfg * real fps)"

text \<open>The body of the frame loop of \<^verbatim>\<open>generateVideo\<close>: the calls made for frame \<open>frameNum\<close>.\<close>

definition draw_frame :: "environment \<Rightarrow> video_config \<Rightarrow> nat \<Rightarrow> call list" where
  "draw_frame env cfg frameNum =
     (let width = 1080; height = 1920;
          progress = real frameNum / totalFrames cfg
      in [ClearRect 0 0 (real width) (real height)]
         @ drawBackground width height (cfg_background cfg) progress
         @ drawCaption (measureText env) (cfg_caption cfg) frameNum (totalFrames cfg) width height
         @ drawAvatar (real width - 120) 40 80 frameNum)"

text \<open>
  The frame loop \<^verbatim>\<open>for (frameNum = 0; frameNum < totalFrames; frameNum++)\<close>, from
  \<open>frameNum\<close> on: the frames it saves, in order. The counter is a whole number; up to
  \<open>2 ^ 53\<close>, where the theorems use the loop, \<^verbatim>\<open>frameNum++\<close> is exact.
\<close>

function frame_loop :: "environment \<Rightarrow> video_config \<Rightarrow> nat \<Rightarrow> call list list" where
  "frame_loop env cfg frameNum =
     (if real frameNum < totalFrames cfg
      then draw_frame env cfg frameNum # frame_loop env cfg (Suc frameNum)
      else [])"
  by pat_completeness auto
termination
proof (relation "measure (\<lambda>(env, cfg, frameNum). nat \<lceil>totalFrames cfg\<rceil> - frameNum)")
  show "wf (measure (\<lambda>(env, cfg, frameNum). nat \<lceil>totalFrames cfg\<rceil> - frameNum))"
    by simp
next
  fix env :: environment and cfg :: video_config and frameNum :: nat
  assume "real frameNum < totalFrames cfg"
  then have "int frameNum < \<lceil>totalFrames cfg\<rceil>" by (simp add: less_ceiling_iff)
  then have "frameNum < nat \<lceil>totalFrames cfg\<rceil>" by linarith
  then show "((env, cfg, Suc frameNum), (env, cfg, frameNum))
       \<in> measure (\<lambda>(env, cfg, frameNum). nat \<lceil>totalFrames cfg\<rceil> - frameNum)"
    by simp
qed

declare frame_loop.simps [simp del]

text \<open>
  \<^verbatim>\<open>generateVideo(videoConfig)\<close>: the frames handed to the encoder, which plays them at
  \<^verbatim>\<open>fps\<close> frames per second, and the record returned. Writing the frame files and encoding
  are taken to succeed; they read nothing but the frames.
\<close>

record video =
  frames_drawn :: "call list list"
  framerate :: nat
  createdAt :: string
  video_duration :: real
  video_width :: nat
  video_height :: nat

definition generateVideo :: "environment \<Rightarrow> video_config \<Rightarrow> video" where
  "generateVideo env cfg =
     \<lparr>frames_drawn = frame_loop env cfg 0, framerate = fps, createdAt = clock env,
      video_duration = cfg_duration cfg, video_width = 1080, video_height = 1920\<rparr>"

text \<open>
  A text measure that gives every character 30 pixels, and the configuration of the
  end-to-end scenario: five seconds with the caption \<^verbatim>\<open>Hello world\<close>.
\<close>

definition fixed_width :: "string \<Rightarrow> real" where
  "fixed_width str = 30 * real (length str)"

definition hello_config :: video_config where
  "hello_config =
     \<lparr>cfg_id = ''sample-001'', cfg_title = ''Hello'', cfg_caption = ''Hello world'',
      cfg_background = Gradient ''#4f46e5'' ''#06b6d4'', cfg_duration = 5\<rparr>"

section \<open>Rounding\<close>

lemmas float_eval = dbl_def f32_def round_to_def exponent_def bits.simps pow2_def round_even_def Let_def

lemma pow2_powr: "pow2 e = 2 powr (of_int e)"
proof (cases "0 \<le> e")
  case True
  have "(2 :: real) powr (real (nat e)) = 2 ^ nat e" by (rule powr_realpow) simp
  moreover have "real (nat e) = of_int e" using True by (rule of_nat_nat)
  ultimately show ?thesis using True by (simp add: pow2_def)
next
  case False
  define n where "n = nat (- e)"
  have e: "of_int e = - real n"
  proof -
    have "0 \<le> - e" using False by linarith
    then have "real (nat (- e)) = of_int (- e)" by (rule of_nat_nat)
    then show ?thesis by (simp add: n_def)
  qed
  have "(2 :: real) powr (- real n) = inverse (2 powr real n)" by (rule powr_minus)
  also have "(2 :: real) powr real n = 2 ^ n" by (rule powr_realpow) simp
  finally have "(2 :: real) powr (of_int e) = 1 / 2 ^ n" unfolding e by (simp add: inverse_eq_divide)
  then show ?thesis using False by (simp add: pow2_def n_def)
qed

lemma pow2_pos: "0 < pow2 e"
  by (simp add: pow2_powr)

lemma pow2_add: "pow2 (a + b) = pow2 a * pow2 b"
  by (simp add: pow2_powr powr_add)

lemma pow2_mono: "a \<le> b \<Longrightarrow> pow2 a \<le> pow2 b"
  by (simp add: pow2_powr)

lemma pow2_less_iff: "pow2 a < pow2 b \<longleftrightarrow> a < b"
  by (simp add: pow2_powr)

lemma pow2_nat: "pow2 (int n) = 2 ^ n"
  by (simp add: pow2_def)

lemma pow2_neg_nat: "pow2 (- int k) = 1 / 2 ^ k"
proof (cases "k = 0")
  case True
  then show ?thesis by (simp add: pow2_def)
next
  case False
  then have "\<not> 0 \<le> - int k" by simp
  moreover have "nat (- (- int k)) = k" by simp
  ultimately show ?thesis unfolding pow2_def by simp
qed

lemma pow2_0: "pow2 0 = 1"
  by (simp add: pow2_def)

lemma pow2_Suc: "pow2 (e + 1) = 2 * pow2 e"
  by (simp add: pow2_powr powr_add)

lemma bits_bounds: "0 < n \<Longrightarrow> 2 ^ (bits n - 1) \<le> n \<and> n < 2 ^ bits n"
proof (induction n rule: bits.induct)
  case (1 n)
  show ?case
  proof (cases "n div 2 = 0")
    case True
    with "1.prems" have "n = 1" by (simp add: div_eq_0_iff)
    then show ?thesis by (simp add: bits.simps)
  next
    case False
    then have p: "0 < n div 2" by simp
    from "1.IH" [OF _ p] "1.prems"
    have ih: "2 ^ (bits (n div 2) - 1) \<le> n div 2" "n div 2 < 2 ^ bits (n div 2)" by simp_all
    have b: "bits n = Suc (bits (n div 2))" using "1.prems" by (subst bits.simps) simp
    have pos: "0 < bits (n div 2)" using p by (subst bits.simps) simp
    then have e: "2 ^ (bits n - 1) = 2 * (2 :: nat) ^ (bits (n div 2) - 1)"
      unfolding b by (cases "bits (n div 2)") simp_all
    have "2 * (n div 2) \<le> n" by simp
    then have lo: "2 ^ (bits n - 1) \<le> n" using ih(1) e by linarith
    have "n < 2 * (n div 2) + 2" by linarith
    then have hi: "n < 2 ^ bits n" using ih(2) b by simp
    show ?thesis using lo hi by simp
  qed
qed

lemma bits_pos: "0 < n \<Longrightarrow> 0 < bits n"
  by (subst bits.simps) simp

lemma exponent_bounds:
  assumes "0 < a"
  shows "pow2 (exponent a) \<le> a" and "a < pow2 (exponent a + 1)"
proof -
  show "pow2 (exponent a) \<le> a"
  proof (cases "1 \<le> a")
    case True
    let ?n = "nat \<lfloor>a\<rfloor>"
    have n: "0 < ?n" using True by simp
    have e: "exponent a = int (bits ?n - 1)"
      using True bits_pos [OF n] by (simp add: exponent_def)
    have "(2 :: nat) ^ (bits ?n - 1) \<le> ?n" using bits_bounds [OF n] by simp
    then have "real ((2 :: nat) ^ (bits ?n - 1)) \<le> real ?n" by (simp only: of_nat_le_iff)
    also have "real ?n \<le> a" using True by (simp add: of_nat_nat)
    finally show ?thesis by (simp add: e pow2_nat)
  next
    case False
    let ?m = "nat (\<lceil>1 / a\<rceil> - 1)"
    have a1: "1 < 1 / a" using False assms by simp
    have "1 < \<lceil>1 / a\<rceil>" using a1 by (simp add: less_ceiling_iff)
    have e: "exponent a = - int (bits ?m)" using False by (simp add: exponent_def)
    have "1 / a \<le> of_int \<lceil>1 / a\<rceil>" by simp
    also have "of_int \<lceil>1 / a\<rceil> = real ?m + 1"
    proof -
      have "0 \<le> \<lceil>1 / a\<rceil> - 1" using \<open>1 < \<lceil>1 / a\<rceil>\<close> by linarith
      then have "real ?m = of_int (\<lceil>1 / a\<rceil> - 1)" by (rule of_nat_nat)
      then show ?thesis by simp
    qed
    also have "real ?m + 1 \<le> 2 ^ bits ?m"
    proof (cases "?m = 0")
      case True
      then show ?thesis by (simp add: bits.simps)
    next
      case False
      then have "?m < 2 ^ bits ?m" using bits_bounds [of ?m] by simp
      then have "Suc ?m \<le> 2 ^ bits ?m" by (rule Suc_leI)
      then have "real (Suc ?m) \<le> real ((2 :: nat) ^ bits ?m)" by (simp only: of_nat_le_iff)
      then show ?thesis by simp
    qed
    finally have "1 / a \<le> 2 ^ bits ?m" .
    then have "1 / 2 ^ bits ?m \<le> a" using assms by (simp add: field_simps)
    then show ?thesis by (simp add: e pow2_neg_nat)
  qed
  show "a < pow2 (exponent a + 1)"
  proof (cases "1 \<le> a")
    case True
    let ?n = "nat \<lfloor>a\<rfloor>"
    have n: "0 < ?n" using True by simp
    have e: "exponent a + 1 = int (bits ?n)"
      using True by (simp add: exponent_def)
    have "?n < 2 ^ bits ?n" using bits_bounds [OF n] by simp
    then have "Suc ?n \<le> 2 ^ bits ?n" by (rule Suc_leI)
    then have le: "real (Suc ?n) \<le> real ((2 :: nat) ^ bits ?n)" by (simp only: of_nat_le_iff)
    have "a < of_int \<lfloor>a\<rfloor> + 1" by linarith
    also have "of_int \<lfloor>a\<rfloor> + 1 = real (Suc ?n)" using True by (simp add: of_nat_nat)
    finally show ?thesis using le by (simp add: e pow2_nat)
  next
    case False
    let ?m = "nat (\<lceil>1 / a\<rceil> - 1)"
    have a1: "1 < 1 / a" using False assms by simp
    have c: "1 < \<lceil>1 / a\<rceil>" using a1 by (simp add: less_ceiling_iff)
    then have m: "0 < ?m" by simp
    have e: "exponent a + 1 = - int (bits ?m - 1)"
      using False bits_pos [OF m] by (simp add: exponent_def)
    have "(2 :: nat) ^ (bits ?m - 1) \<le> ?m" using bits_bounds [OF m] by simp
    then have "real ((2 :: nat) ^ (bits ?m - 1)) \<le> real ?m" by (simp only: of_nat_le_iff)
    also have "real ?m = of_int \<lceil>1 / a\<rceil> - 1"
    proof -
      have "0 \<le> \<lceil>1 / a\<rceil> - 1" using c by linarith
      then have "real ?m = of_int (\<lceil>1 / a\<rceil> - 1)" by (rule of_nat_nat)
      then show ?thesis by simp
    qed
    also have "\<dots> < 1 / a" by linarith
    finally have "2 ^ (bits ?m - 1) < 1 / a" by simp
    then have "a < 1 / 2 ^ (bits ?m - 1)" using assms by (simp add: field_simps)
    moreover have "pow2 (- int (bits ?m - 1)) = 1 / 2 ^ (bits ?m - 1)"
      by (rule pow2_neg_nat)
    ultimately show ?thesis by (simp add: e)
  qed
qed

lemma exponent_unique:
  assumes "pow2 e \<le> a" "a < pow2 (e + 1)"
  shows "exponent a = e"
proof -
  have a: "0 < a" using assms(1) pow2_pos [of e] by linarith
  note b = exponent_bounds [OF a]
  have "pow2 e < pow2 (exponent a + 1)" using assms(1) b(2) by linarith
  then have 1: "e < exponent a + 1" by (simp add: pow2_less_iff)
  have "pow2 (exponent a) < pow2 (e + 1)" using assms(2) b(1) by linarith
  then have 2: "exponent a < e + 1" by (simp add: pow2_less_iff)
  show ?thesis using 1 2 by linarith
qed

lemma exponent_mono:
  assumes "0 < a" "a \<le> b"
  shows "exponent a \<le> exponent b"
proof -
  have b: "0 < b" using assms by linarith
  have "pow2 (exponent a) \<le> a" using assms(1) by (rule exponent_bounds)
  also have "a \<le> b" by fact
  also have "b < pow2 (exponent b + 1)" using b by (rule exponent_bounds)
  finally have "exponent a < exponent b + 1" by (simp add: pow2_less_iff)
  then show ?thesis by linarith
qed

lemma round_even_of_int: "round_even (of_int k) = k"
  by (simp add: round_even_def)

lemma round_even_bounds: "\<lfloor>y\<rfloor> \<le> round_even y" "round_even y \<le> \<lfloor>y\<rfloor> + 1"
  by (simp_all add: round_even_def Let_def)

lemma round_even_mono:
  assumes "x \<le> y"
  shows "round_even x \<le> round_even y"
proof (cases "\<lfloor>x\<rfloor> = \<lfloor>y\<rfloor>")
  case True
  have "x - of_int \<lfloor>y\<rfloor> \<le> y - of_int \<lfloor>y\<rfloor>" using assms by simp
  then show ?thesis unfolding round_even_def Let_def True by auto
next
  case False
  have "\<lfloor>x\<rfloor> \<le> \<lfloor>y\<rfloor>" using assms by (rule floor_mono)
  then have "\<lfloor>x\<rfloor> + 1 \<le> \<lfloor>y\<rfloor>" using False by linarith
  then show ?thesis using round_even_bounds(2) [of x] round_even_bounds(1) [of y] by linarith
qed

lemma round_even_error: "\<bar>of_int (round_even y) - y\<bar> \<le> 1 / 2"
proof -
  have "of_int \<lfloor>y\<rfloor> \<le> y" "y < of_int \<lfloor>y\<rfloor> + 1" by linarith+
  then show ?thesis unfolding round_even_def Let_def by (auto simp: abs_le_iff)
qed

lemma round_even_minus: "round_even (- y) = - round_even y"
proof (cases "y = of_int \<lfloor>y\<rfloor>")
  case True
  then obtain k where "y = of_int k" ..
  then have "- y = of_int (- k)" by simp
  then show ?thesis using \<open>y = of_int k\<close> by (simp only: round_even_of_int)
next
  case False
  define f where "f = \<lfloor>y\<rfloor>"
  define d where "d = y - of_int f"
  have d: "0 < d" "d < 1" using False unfolding d_def f_def by linarith+
  have fm: "\<lfloor>- y\<rfloor> = - f - 1"
  proof (rule floor_unique)
    show "of_int (- f - 1) \<le> - y" using d unfolding d_def by simp
    show "- y < of_int (- f - 1) + 1" using d unfolding d_def by simp
  qed
  have dm: "- y - of_int (- f - 1) = 1 - d" unfolding d_def by simp
  have ev: "even (- f - 1) \<longleftrightarrow> \<not> even f" by simp
  have a: "round_even y = (if d < 1 / 2 then f else if 1 / 2 < d then f + 1
                           else if even f then f else f + 1)"
    unfolding round_even_def Let_def f_def [symmetric] d_def [symmetric] ..
  have b: "round_even (- y) = (if 1 - d < 1 / 2 then - f - 1 else if 1 / 2 < 1 - d then - f - 1 + 1
                           else if even (- f - 1) then - f - 1 else - f - 1 + 1)"
    unfolding round_even_def Let_def fm dm ..
  show ?thesis unfolding a b ev using d by auto
qed

lemma round_to_0: "round_to p emin 0 = 0"
  by (simp add: round_to_def)

lemma round_to_minus: "round_to p emin (- x) = - round_to p emin x"
  by (simp add: round_to_def Let_def round_even_minus)

lemma round_to_nonneg:
  assumes "0 \<le> x"
  shows "0 \<le> round_to p emin x"
proof (cases "x = 0")
  case True
  then show ?thesis by (simp add: round_to_0)
next
  case False
  define u where "u = pow2 (max (exponent \<bar>x\<bar>) emin - int p + 1)"
  have u: "0 < u" unfolding u_def by (rule pow2_pos)
  have "0 \<le> x / u" using assms u by simp
  then have "round_even (of_int 0) \<le> round_even (x / u)" by (intro round_even_mono) simp
  then have "0 \<le> round_even (x / u)" by (simp only: round_even_of_int)
  then have "0 \<le> u * of_int (round_even (x / u))" using u by simp
  then show ?thesis using False by (simp add: round_to_def Let_def u_def)
qed

lemma round_to_pos_upper:
  assumes "0 < x"
  shows "round_to p emin x \<le> pow2 (max (exponent x) emin + 1)"
proof -
  define e where "e = max (exponent x) emin"
  define u where "u = pow2 (e - int p + 1)"
  have u: "0 < u" unfolding u_def by (rule pow2_pos)
  have "x < pow2 (exponent x + 1)" using assms by (rule exponent_bounds)
  also have "\<dots> \<le> pow2 (e + 1)" by (intro pow2_mono) (simp add: e_def)
  also have "pow2 (e + 1) = u * pow2 (int p)" unfolding u_def pow2_add [symmetric] by simp
  finally have "x / u \<le> pow2 (int p)" using u by (simp add: field_simps)
  then have "x / u \<le> of_int (2 ^ p)" by (simp add: pow2_nat)
  then have "round_even (x / u) \<le> round_even (of_int (2 ^ p))" by (rule round_even_mono)
  then have "round_even (x / u) \<le> 2 ^ p" by (simp only: round_even_of_int)
  then have "real_of_int (round_even (x / u)) \<le> 2 ^ p" by (metis of_int_le_iff of_int_numeral of_int_power)
  then have "u * of_int (round_even (x / u)) \<le> u * 2 ^ p" using u by simp
  also have "\<dots> = pow2 (e + 1)" unfolding u_def pow2_nat [symmetric] pow2_add [symmetric] by simp
  finally show ?thesis using assms by (simp add: round_to_def Let_def u_def e_def)
qed

lemma round_to_pos_lower:
  assumes "0 < x" "emin \<le> exponent x" "0 < p"
  shows "pow2 (exponent x) \<le> round_to p emin x"
proof -
  define e where "e = exponent x"
  define u where "u = pow2 (e - int p + 1)"
  have m: "max (exponent \<bar>x\<bar>) emin = e" using assms by (simp add: e_def)
  have u: "0 < u" unfolding u_def by (rule pow2_pos)
  have pe: "pow2 e = u * pow2 (int (p - 1))"
    unfolding u_def pow2_add [symmetric] using assms(3) by (simp add: of_nat_diff)
  have "pow2 e \<le> x" unfolding e_def using assms(1) by (rule exponent_bounds)
  then have "pow2 (int (p - 1)) \<le> x / u" using u by (simp add: pe field_simps)
  then have "of_int (2 ^ (p - 1)) \<le> x / u" by (simp add: pow2_nat)
  then have "round_even (of_int (2 ^ (p - 1))) \<le> round_even (x / u)" by (rule round_even_mono)
  then have "2 ^ (p - 1) \<le> round_even (x / u)" by (simp only: round_even_of_int)
  then have "(2 :: real) ^ (p - 1) \<le> of_int (round_even (x / u))"
    by (metis of_int_le_iff of_int_numeral of_int_power)
  then have "u * 2 ^ (p - 1) \<le> u * of_int (round_even (x / u))" using u by simp
  then have "pow2 e \<le> u * of_int (round_even (x / u))" by (simp add: pe pow2_nat)
  then show ?thesis using assms(1) m by (simp add: round_to_def Let_def u_def e_def)
qed

lemma round_to_mono_pos:
  assumes "0 < x" "x \<le> y" "0 < p"
  shows "round_to p emin x \<le> round_to p emin y"
proof -
  have y: "0 < y" using assms by linarith
  define ex where "ex = max (exponent x) emin"
  define ey where "ey = max (exponent y) emin"
  have le: "ex \<le> ey" using exponent_mono [OF assms(1,2)] by (simp add: ex_def ey_def)
  show ?thesis
  proof (cases "ex = ey")
    case True
    define u where "u = pow2 (ex - int p + 1)"
    have u: "0 < u" unfolding u_def by (rule pow2_pos)
    have "x / u \<le> y / u" using assms(2) u by (simp add: divide_right_mono)
    then have "round_even (x / u) \<le> round_even (y / u)" by (rule round_even_mono)
    then have "u * of_int (round_even (x / u)) \<le> u * of_int (round_even (y / u))"
      using u by simp
    moreover have "round_to p emin x = u * of_int (round_even (x / u))"
      using assms(1) by (simp add: round_to_def Let_def u_def ex_def)
    moreover have "round_to p emin y = u * of_int (round_even (y / u))"
      using y True by (simp add: round_to_def Let_def u_def ex_def ey_def)
    ultimately show ?thesis by simp
  next
    case False
    then have lt: "ex < ey" using le by linarith
    then have "emin < ey" by (simp add: ex_def)
    then have ey: "ey = exponent y" "emin \<le> exponent y" by (simp_all add: ey_def max_def split: if_splits)
    have "round_to p emin x \<le> pow2 (ex + 1)" unfolding ex_def using assms(1) by (rule round_to_pos_upper)
    also have "\<dots> \<le> pow2 ey" using lt by (intro pow2_mono) simp
    also have "\<dots> \<le> round_to p emin y" unfolding ey(1) using y ey(2) assms(3) by (rule round_to_pos_lower)
    finally show ?thesis .
  qed
qed

lemma round_to_mono:
  assumes "x \<le> y" "0 < p"
  shows "round_to p emin x \<le> round_to p emin y"
proof -
  consider (pos) "0 < x" | (neg) "y < 0" | (mid) "x \<le> 0" "0 \<le> y" by linarith
  then show ?thesis
  proof cases
    case pos
    then show ?thesis using assms by (rule round_to_mono_pos)
  next
    case neg
    then have "0 < - y" "- y \<le> - x" using assms(1) by simp_all
    then have "round_to p emin (- y) \<le> round_to p emin (- x)" using assms(2) by (rule round_to_mono_pos)
    then show ?thesis by (simp add: round_to_minus)
  next
    case mid
    have "0 \<le> round_to p emin (- x)" using mid(1) by (intro round_to_nonneg) simp
    then have "round_to p emin x \<le> 0" by (simp add: round_to_minus)
    also have "0 \<le> round_to p emin y" using mid(2) by (rule round_to_nonneg)
    finally show ?thesis .
  qed
qed

lemma round_to_rel_error:
  assumes "x \<noteq> 0" "emin \<le> exponent \<bar>x\<bar>"
  shows "\<bar>round_to p emin x - x\<bar> \<le> \<bar>x\<bar> * pow2 (- int p)"
proof -
  define e where "e = exponent \<bar>x\<bar>"
  define u where "u = pow2 (e - int p + 1)"
  have u: "0 < u" unfolding u_def by (rule pow2_pos)
  have m: "max (exponent \<bar>x\<bar>) emin = e" using assms(2) by (simp add: e_def)
  have r: "round_to p emin x = u * of_int (round_even (x / u))"
    using assms(1) m by (simp add: round_to_def Let_def u_def)
  have "round_to p emin x - x = u * (of_int (round_even (x / u)) - x / u)"
    unfolding r using u by (simp add: algebra_simps)
  then have "\<bar>round_to p emin x - x\<bar> = u * \<bar>of_int (round_even (x / u)) - x / u\<bar>"
    using u by (simp add: abs_mult)
  also have "\<dots> \<le> u * (1 / 2)" using u round_even_error [of "x / u"] by (intro mult_left_mono) simp_all
  also have "u * (1 / 2) = pow2 e * pow2 (- int p)"
  proof -
    have "u = pow2 ((e + (- int p)) + 1)" unfolding u_def by (simp add: algebra_simps)
    also have "\<dots> = 2 * pow2 (e + (- int p))" by (rule pow2_Suc)
    also have "pow2 (e + (- int p)) = pow2 e * pow2 (- int p)" by (rule pow2_add)
    finally show ?thesis by simp
  qed
  also have "\<dots> \<le> \<bar>x\<bar> * pow2 (- int p)"
  proof (rule mult_right_mono)
    show "pow2 e \<le> \<bar>x\<bar>" unfolding e_def using assms(1) by (intro exponent_bounds) simp
    show "0 \<le> pow2 (- int p)" using pow2_pos [of "- int p"] by simp
  qed
  finally show ?thesis .
qed

lemma round_to_of_int:
  assumes "\<bar>m\<bar> < 2 ^ p" "emin \<le> int p - 1"
  shows "round_to p emin (of_int m) = of_int m"
proof (cases "m = 0")
  case True
  then show ?thesis by (simp add: round_to_0)
next
  case False
  define a where "a = \<bar>real_of_int m\<bar>"
  have a: "0 < a" "a < 2 ^ p" using False assms(1) unfolding a_def
    by (simp, metis of_int_abs of_int_less_iff of_int_numeral of_int_power)
  define e where "e = max (exponent a) emin"
  have "pow2 (exponent a) \<le> a" using a(1) by (rule exponent_bounds)
  also have "a < pow2 (int p)" using a(2) by (simp add: pow2_nat)
  finally have "exponent a < int p" by (simp add: pow2_less_iff)
  then have k: "e - int p + 1 \<le> 0" using assms(2) by (simp add: e_def)
  define j where "j = nat (- (e - int p + 1))"
  have ej: "e - int p + 1 = - int j" using k by (simp add: j_def)
  define u where "u = pow2 (e - int p + 1)"
  have uj: "u = 1 / 2 ^ j" unfolding u_def ej by (rule pow2_neg_nat)
  have "of_int m / u = of_int (m * 2 ^ j)" by (simp add: uj)
  then have "round_even (of_int m / u) = m * 2 ^ j" by (simp only: round_even_of_int)
  then have "u * of_int (round_even (of_int m / u)) = of_int m" by (simp add: uj)
  then show ?thesis using False by (simp add: round_to_def Let_def u_def e_def a_def)
qed

lemma round_to_abs_error:
  "\<bar>round_to p emin x - x\<bar> \<le> \<bar>x\<bar> * pow2 (- int p) + pow2 (emin - int p)"
proof (cases "x = 0")
  case True
  then show ?thesis using pow2_pos [of "emin - int p"] by (simp add: round_to_0)
next
  case False
  have nn: "0 \<le> \<bar>x\<bar> * pow2 (- int p)" "0 \<le> pow2 (emin - int p)"
    using pow2_pos [of "- int p"] pow2_pos [of "emin - int p"] by simp_all
  show ?thesis
  proof (cases "emin \<le> exponent \<bar>x\<bar>")
    case True
    with False have "\<bar>round_to p emin x - x\<bar> \<le> \<bar>x\<bar> * pow2 (- int p)"
      by (rule round_to_rel_error)
    then show ?thesis using nn(2) by linarith
  next
    case below: False
    define u where "u = pow2 (emin - int p + 1)"
    have u: "0 < u" unfolding u_def by (rule pow2_pos)
    have m: "max (exponent \<bar>x\<bar>) emin = emin" using below by simp
    have r: "round_to p emin x = u * of_int (round_even (x / u))"
      using False m by (simp add: round_to_def Let_def u_def)
    have "round_to p emin x - x = u * (of_int (round_even (x / u)) - x / u)"
      unfolding r using u by (simp add: algebra_simps)
    then have "\<bar>round_to p emin x - x\<bar> = u * \<bar>of_int (round_even (x / u)) - x / u\<bar>"
      using u by (simp add: abs_mult)
    also have "\<dots> \<le> u * (1 / 2)"
      using u round_even_error [of "x / u"] by (intro mult_left_mono) simp_all
    also have "u * (1 / 2) = pow2 (emin - int p)"
    proof -
      have "u = 2 * pow2 (emin - int p)" unfolding u_def by (rule pow2_Suc)
      then show ?thesis by simp
    qed
    finally show ?thesis using nn(1) by linarith
  qed
qed

lemma exponent_ge: "pow2 e \<le> a \<Longrightarrow> e \<le> exponent a"
proof -
  assume a: "pow2 e \<le> a"
  have "0 < a" using a pow2_pos [of e] by linarith
  then have "a < pow2 (exponent a + 1)" by (rule exponent_bounds)
  then have "pow2 e < pow2 (exponent a + 1)" using a by linarith
  then show ?thesis by (simp add: pow2_less_iff)
qed

lemma dbl_0: "dbl 0 = 0"
  by (simp add: dbl_def round_to_0)

lemma dbl_minus: "dbl (- x) = - dbl x"
  by (simp add: dbl_def round_to_minus)

lemma dbl_nonneg: "0 \<le> x \<Longrightarrow> 0 \<le> dbl x"
  unfolding dbl_def by (rule round_to_nonneg)

lemma dbl_mono: "x \<le> y \<Longrightarrow> dbl x \<le> dbl y"
  unfolding dbl_def by (rule round_to_mono) simp_all

lemma dbl_of_nat: "n < 2 ^ 53 \<Longrightarrow> dbl (real n) = real n"
proof -
  assume "n < 2 ^ 53"
  then have "int n < 2 ^ 53" by (metis of_nat_less_iff of_nat_numeral of_nat_power)
  then have "\<bar>int n\<bar> < 2 ^ 53" by simp
  then have "round_to 53 (- 1022) (of_int (int n)) = of_int (int n)"
    by (rule round_to_of_int) simp
  then show ?thesis by (simp add: dbl_def)
qed

lemma dbl_rel_error:
  assumes "pow2 (- 1022) \<le> \<bar>x\<bar>"
  shows "\<bar>dbl x - x\<bar> \<le> \<bar>x\<bar> / 2 ^ 53"
proof -
  have "x \<noteq> 0" using assms pow2_pos [of "- 1022"] by auto
  moreover have "- 1022 \<le> exponent \<bar>x\<bar>" using assms by (rule exponent_ge)
  ultimately have "\<bar>round_to 53 (- 1022) x - x\<bar> \<le> \<bar>x\<bar> * pow2 (- int 53)"
    by (rule round_to_rel_error)
  also have "pow2 (- int 53) = 1 / 2 ^ 53" by (rule pow2_neg_nat)
  also have "\<bar>x\<bar> * (1 / 2 ^ 53) = \<bar>x\<bar> / 2 ^ 53" by simp
  finally show ?thesis unfolding dbl_def .
qed

lemma f32_0: "f32 0 = 0"
  by (simp add: f32_def round_to_0)

lemma f32_minus: "f32 (- x) = - f32 x"
  by (simp add: f32_def round_to_minus)

lemma f32_nonneg: "0 \<le> x \<Longrightarrow> 0 \<le> f32 x"
  unfolding f32_def by (rule round_to_nonneg)

lemma f32_mono: "x \<le> y \<Longrightarrow> f32 x \<le> f32 y"
  unfolding f32_def by (rule round_to_mono) simp_all

lemma dbl_abs_error: "\<bar>dbl x - x\<bar> \<le> \<bar>x\<bar> / 2 ^ 53 + 1 / 2 ^ 1075"
proof -
  have "\<bar>round_to 53 (- 1022) x - x\<bar> \<le> \<bar>x\<bar> * pow2 (- int 53) + pow2 (- 1022 - int 53)"
    by (rule round_to_abs_error)
  also have "pow2 (- int 53) = 1 / 2 ^ 53" by (rule pow2_neg_nat)
  also have "- 1022 - int 53 = - int 1075" by simp
  also have "pow2 (- int 1075) = 1 / 2 ^ 1075" by (rule pow2_neg_nat)
  finally show ?thesis unfolding dbl_def by simp
qed

lemma f32_abs_error: "\<bar>f32 x - x\<bar> \<le> \<bar>x\<bar> / 2 ^ 24 + 1 / 2 ^ 150"
proof -
  have "\<bar>round_to 24 (- 126) x - x\<bar> \<le> \<bar>x\<bar> * pow2 (- int 24) + pow2 (- 126 - int 24)"
    by (rule round_to_abs_error)
  also have "pow2 (- int 24) = 1 / 2 ^ 24" by (rule pow2_neg_nat)
  also have "- 126 - int 24 = - int 150" by simp
  also have "pow2 (- int 150) = 1 / 2 ^ 150" by (rule pow2_neg_nat)
  finally show ?thesis unfolding f32_def by simp
qed

lemma upt_2: "[0..<2] = [0, 1 :: nat]"
  by (simp add: numeral_2_eq_2)

section \<open>Facts about the peak\<close>

lemma foldl_max_abs_ge: "m \<le> foldl (\<lambda>m x. max m \<bar>x\<bar>) m (xs :: real list)"
proof (induction xs arbitrary: m)
  case Nil
  show ?case by simp
next
  case (Cons x xs)
  have "m \<le> max m \<bar>x\<bar>" by simp
  also have "\<dots> \<le> foldl (\<lambda>m x. max m \<bar>x\<bar>) (max m \<bar>x\<bar>) xs" by (rule Cons.IH)
  finally show ?case by simp
qed

lemma foldl_max_abs_bound:
  "x \<in> set xs \<Longrightarrow> \<bar>x\<bar> \<le> foldl (\<lambda>m x. max m \<bar>x\<bar>) m (xs :: real list)"
proof (induction xs arbitrary: m)
  case Nil
  then show ?case by simp
next
  case (Cons y ys)
  show ?case
  proof (cases "x = y")
    case True
    have "\<bar>x\<bar> \<le> max m \<bar>y\<bar>" using True by simp
    also have "\<dots> \<le> foldl (\<lambda>m x. max m \<bar>x\<bar>) (max m \<bar>y\<bar>) ys" by (rule foldl_max_abs_ge)
    finally show ?thesis by simp
  next
    case False
    with Cons.prems have "x \<in> set ys" by simp
    then show ?thesis using Cons.IH by simp
  qed
qed

lemma foldl_max_abs_attained:
  "foldl (\<lambda>m x. max m \<bar>x\<bar>) m (xs :: real list) = m \<or>
   (\<exists>x\<in>set xs. foldl (\<lambda>m x. max m \<bar>x\<bar>) m xs = \<bar>x\<bar>)"
proof (induction xs arbitrary: m)
  case Nil
  show ?case by simp
next
  case (Cons y ys)
  from Cons.IH [of "max m \<bar>y\<bar>"] show ?case
    by (auto simp: max_def split: if_splits)
qed

lemma foldl_max_abs_scale:
  "0 \<le> c \<Longrightarrow> foldl (\<lambda>m x. max m \<bar>x\<bar>) (c * m) (map (\<lambda>x. x * c) xs)
     = c * foldl (\<lambda>m x. max m \<bar>x\<bar>) m (xs :: real list)"
proof (induction xs arbitrary: m)
  case Nil
  show ?case by simp
next
  case (Cons y ys)
  have "max (c * m) \<bar>y * c\<bar> = c * max m \<bar>y\<bar>"
    using Cons.prems by (simp add: abs_mult max_mult_distrib_left mult.commute)
  then show ?case using Cons by simp
qed

lemma peak_abs_nonneg: "0 \<le> peak_abs xs"
  unfolding peak_abs_def by (rule foldl_max_abs_ge)

lemma peak_abs_bound: "x \<in> set xs \<Longrightarrow> \<bar>x\<bar> \<le> peak_abs xs"
  unfolding peak_abs_def by (rule foldl_max_abs_bound)

lemma peak_abs_zero_iff: "peak_abs xs = 0 \<longleftrightarrow> (\<forall>x\<in>set xs. x = 0)"
proof
  assume z: "peak_abs xs = 0"
  show "\<forall>x\<in>set xs. x = 0"
  proof
    fix x assume "x \<in> set xs"
    then have "\<bar>x\<bar> \<le> 0" using peak_abs_bound [of x xs] z by simp
    then show "x = 0" by simp
  qed
next
  assume a: "\<forall>x\<in>set xs. x = 0"
  from foldl_max_abs_attained [of 0 xs] show "peak_abs xs = 0"
    unfolding peak_abs_def using a by auto
qed

lemma peak_abs_scale: "0 \<le> c \<Longrightarrow> peak_abs (map (\<lambda>x. x * c) xs) = c * peak_abs xs"
  unfolding peak_abs_def using foldl_max_abs_scale [of c 0 xs] by simp

section \<open>Normalization\<close>

lemma peak_abs_eq:
  assumes "\<forall>x \<in> set xs. \<bar>x\<bar> \<le> p" "\<exists>x \<in> set xs. \<bar>x\<bar> = p"
  shows "peak_abs xs = p"
proof (rule antisym)
  from assms(2) obtain x where x: "x \<in> set xs" "\<bar>x\<bar> = p" by blast
  show "p \<le> peak_abs xs" using peak_abs_bound [OF x(1)] x(2) by simp
  have p: "0 \<le> p" using x(2) by auto
  from foldl_max_abs_attained [of 0 xs]
  show "peak_abs xs \<le> p" unfolding peak_abs_def using assms(1) p by auto
qed

text \<open>What \<^verbatim>\<open>normalize\<close> stores for a sample \<open>x\<close> grows with \<open>x\<close> and is odd in it.\<close>

lemma stored_mono:
  assumes "0 \<le> c" "a \<le> b"
  shows "f32 (dbl (a * c)) \<le> f32 (dbl (b * c))"
proof -
  have "a * c \<le> b * c" using assms by (rule mult_right_mono[rotated])
  then have "dbl (a * c) \<le> dbl (b * c)" by (rule dbl_mono)
  then show ?thesis by (rule f32_mono)
qed

lemma stored_abs:
  assumes "0 \<le> c"
  shows "\<bar>f32 (dbl (x * c))\<bar> = f32 (dbl (\<bar>x\<bar> * c))"
proof (cases "0 \<le> x")
  case True
  then have "0 \<le> x * c" using assms by simp
  then have "0 \<le> f32 (dbl (x * c))" by (intro f32_nonneg dbl_nonneg)
  then show ?thesis using True by simp
next
  case False
  then have "0 \<le> (- x) * c" using assms by (intro mult_nonneg_nonneg) simp_all
  then have n: "0 \<le> f32 (dbl ((- x) * c))" by (intro f32_nonneg dbl_nonneg)
  have "f32 (dbl (x * c)) = - f32 (dbl ((- x) * c))"
    by (simp add: dbl_minus f32_minus)
  then show ?thesis using n False by simp
qed

text \<open>
  The three roundings together move a stored sample by at most \<open>t / 2 ^ 23\<close> from the
  exact product, as long as neither the target nor the peak is extreme.
\<close>

lemma stored_error:
  assumes p: "0 < p" "p \<le> 2 ^ 100" and t: "1 / 2 ^ 100 \<le> t" and x: "\<bar>x\<bar> \<le> p"
  shows "\<bar>f32 (dbl (x * dbl (t / p))) - x * (t / p)\<bar> \<le> t / 2 ^ 23"
proof -
  define s where "s = t / p"
  define d where "d = t / 2 ^ 50"
  define y where "y = x * dbl s"
  have t0: "0 < t"
  proof -
    have "(0 :: real) < 1 / 2 ^ 100" by simp
    then show ?thesis using t by linarith
  qed
  have s0: "0 < s" using t0 p(1) by (simp add: s_def)
  have ps: "p * s = t" using p(1) by (simp add: s_def)
  have d0: "0 \<le> d" using t0 by (simp add: d_def)
  have lo: "1 / 2 ^ 150 \<le> d"
  proof -
    have "1 / 2 ^ 100 / 2 ^ 50 \<le> t / 2 ^ 50" using t by (rule divide_right_mono) simp
    moreover have "(1 :: real) / 2 ^ 100 / 2 ^ 50 = 1 / 2 ^ 150" by simp
    ultimately show ?thesis by (simp only: d_def)
  qed
  have eta: "1 / 2 ^ 1075 \<le> d"
  proof -
    have "(1 :: real) / 2 ^ 1075 \<le> 1 / 2 ^ 150" by simp
    then show ?thesis using lo by linarith
  qed
  have peta: "p * (1 / 2 ^ 1075) \<le> d"
  proof -
    have "p * (1 / 2 ^ 1075) \<le> 2 ^ 100 * (1 / 2 ^ 1075)" using p(2) by (rule mult_right_mono) simp
    also have "(2 :: real) ^ 100 * (1 / 2 ^ 1075) \<le> 1 / 2 ^ 150" by simp
    finally show ?thesis using lo by linarith
  qed
  have teps: "t / 2 ^ 53 \<le> d"
  proof -
    have "t * (1 / 2 ^ 53) \<le> t * (1 / 2 ^ 50)" using t0 by (intro mult_left_mono) simp_all
    then show ?thesis by (simp add: d_def)
  qed
  have deps: "d / 2 ^ 53 \<le> d" "d / 2 ^ 24 \<le> d"
  proof -
    have "d * (1 / 2 ^ 53) \<le> d * 1" using d0 by (intro mult_left_mono) simp_all
    then show "d / 2 ^ 53 \<le> d" by simp
    have "d * (1 / 2 ^ 24) \<le> d * 1" using d0 by (intro mult_left_mono) simp_all
    then show "d / 2 ^ 24 \<le> d" by simp
  qed
  have xs: "\<bar>x * s\<bar> \<le> t"
  proof -
    have "\<bar>x\<bar> * s \<le> p * s" using x s0 by (intro mult_right_mono) simp_all
    then show ?thesis using s0 ps by (simp add: abs_mult)
  qed
  have e1: "\<bar>y - x * s\<bar> \<le> 2 * d"
  proof -
    have a: "\<bar>dbl s - s\<bar> \<le> s / 2 ^ 53 + 1 / 2 ^ 1075"
      using dbl_abs_error [of s] s0 by simp
    have "\<bar>y - x * s\<bar> = \<bar>x\<bar> * \<bar>dbl s - s\<bar>"
      unfolding y_def by (simp add: abs_mult [symmetric] algebra_simps)
    also have "\<dots> \<le> p * (s / 2 ^ 53 + 1 / 2 ^ 1075)"
      using x a by (intro mult_mono) simp_all
    also have "\<dots> = t / 2 ^ 53 + p * (1 / 2 ^ 1075)"
      using ps by (simp add: algebra_simps)
    finally show ?thesis using teps peta by linarith
  qed
  have y: "\<bar>y\<bar> \<le> t + 2 * d" using e1 xs by linarith
  have e2: "\<bar>dbl y - y\<bar> \<le> 4 * d"
  proof -
    have "\<bar>dbl y - y\<bar> \<le> \<bar>y\<bar> / 2 ^ 53 + 1 / 2 ^ 1075" by (rule dbl_abs_error)
    moreover have "\<bar>y\<bar> / 2 ^ 53 \<le> (t + 2 * d) / 2 ^ 53" using y by (rule divide_right_mono) simp
    moreover have "(t + 2 * d) / 2 ^ 53 = t / 2 ^ 53 + 2 * (d / 2 ^ 53)"
      by (simp add: add_divide_distrib)
    ultimately show ?thesis using teps deps(1) eta by linarith
  qed
  have y': "\<bar>dbl y\<bar> \<le> t + 6 * d" using e2 y by linarith
  have e3: "\<bar>f32 (dbl y) - dbl y\<bar> \<le> t / 2 ^ 24 + 7 * d"
  proof -
    have "\<bar>f32 (dbl y) - dbl y\<bar> \<le> \<bar>dbl y\<bar> / 2 ^ 24 + 1 / 2 ^ 150" by (rule f32_abs_error)
    moreover have "\<bar>dbl y\<bar> / 2 ^ 24 \<le> (t + 6 * d) / 2 ^ 24"
      using y' by (rule divide_right_mono) simp
    moreover have "(t + 6 * d) / 2 ^ 24 = t / 2 ^ 24 + 6 * (d / 2 ^ 24)"
      by (simp add: add_divide_distrib)
    ultimately show ?thesis using deps(2) lo by linarith
  qed
  have "\<bar>f32 (dbl y) - x * s\<bar> \<le> t / 2 ^ 24 + 13 * d" using e1 e2 e3 by linarith
  also have "t / 2 ^ 24 + 13 * d \<le> t / 2 ^ 23"
  proof -
    have "13 * (t / 2 ^ 50) \<le> t / 2 ^ 24" using t0 by (simp add: field_simps)
    moreover have "t / 2 ^ 23 = t / 2 ^ 24 + t / 2 ^ 24" by simp
    ultimately show ?thesis unfolding d_def by linarith
  qed
  finally show ?thesis unfolding y_def s_def .
qed

text \<open>
  C5 (as the code has it). For a buffer whose peak absolute sample \<open>p\<close> is positive and a
  target \<open>t\<close> (the double nearest to 0.95 when none is given), \<^verbatim>\<open>normalize\<close> returns a
  new buffer of the same length in which every sample is the input sample times the
  double nearest to \<open>t / p\<close>, the product rounded to a double and then to a single; for a
  target that is not negative, the peak of the output is what is stored for \<open>p\<close>. For a
  target of at least \<open>2 ^ -100\<close> and a peak of at most \<open>2 ^ 100\<close>, every output sample
  is within \<open>t / 2 ^ 23\<close> of the input sample times \<open>t / p\<close>, and the output peak within
  \<open>t / 2 ^ 23\<close> of \<open>t\<close>. On a buffer with no non-zero sample \<^verbatim>\<open>normalize\<close> returns the
  buffer it was given, in an unchanged store.
\<close>

theorem normalize_scales_to_target:
  fixes h :: heap
  shows "(0 < p \<and> (\<forall>x \<in> set (h ! buffer). \<bar>x\<bar> \<le> p) \<and> (\<exists>x \<in> set (h ! buffer). \<bar>x\<bar> = p) \<and>
          (target = Some t \<or> target = None \<and> t = dbl (95 / 100)) \<longrightarrow>
            (\<exists>out. normalize_samples h buffer target = (h @ [out], length h) \<and>
               length out = length (h ! buffer) \<and>
               (\<forall>i < length out. out ! i = f32 (dbl (h ! buffer ! i * dbl (t / p)))) \<and>
               (0 \<le> t \<longrightarrow> (\<forall>y \<in> set out. \<bar>y\<bar> \<le> f32 (dbl (p * dbl (t / p)))) \<and>
                             (\<exists>y \<in> set out. \<bar>y\<bar> = f32 (dbl (p * dbl (t / p))))) \<and>
               (1 / 2 ^ 100 \<le> t \<and> p \<le> 2 ^ 100 \<longrightarrow>
                  (\<forall>i < length out. \<bar>out ! i - h ! buffer ! i * (t / p)\<bar> \<le> t / 2 ^ 23) \<and>
                  \<bar>f32 (dbl (p * dbl (t / p))) - t\<bar> \<le> t / 2 ^ 23))) \<and>
         ((\<forall>x \<in> set (h ! buffer). x = 0) \<longrightarrow> normalize_samples h buffer target = (h, buffer))"
proof (intro conjI impI)
  assume a: "0 < p \<and> (\<forall>x \<in> set (h ! buffer). \<bar>x\<bar> \<le> p) \<and> (\<exists>x \<in> set (h ! buffer). \<bar>x\<bar> = p) \<and>
          (target = Some t \<or> target = None \<and> t = dbl (95 / 100))"
  then have pos: "0 < p" and le: "\<forall>x \<in> set (h ! buffer). \<bar>x\<bar> \<le> p"
    and ex: "\<exists>x \<in> set (h ! buffer). \<bar>x\<bar> = p" and tv: "target_value target = t"
    by (auto simp: target_value_def)
  have pk: "peak_abs (h ! buffer) = p" using le ex by (rule peak_abs_eq)
  define c where "c = dbl (t / p)"
  define out where "out = map (\<lambda>x. f32 (dbl (x * c))) (h ! buffer)"
  have eq: "normalize_samples h buffer target = (h @ [out], length h)"
    using pos by (simp add: normalize_samples_def alloc_def Let_def out_def c_def pk tv)
  have len: "length out = length (h ! buffer)" by (simp add: out_def)
  have nth: "\<forall>i < length out. out ! i = f32 (dbl (h ! buffer ! i * c))"
    by (simp add: out_def)
  have peak: "(\<forall>y \<in> set out. \<bar>y\<bar> \<le> f32 (dbl (p * c))) \<and> (\<exists>y \<in> set out. \<bar>y\<bar> = f32 (dbl (p * c)))"
    if t: "0 \<le> t"
  proof
    have c: "0 \<le> c" unfolding c_def using t pos by (intro dbl_nonneg) simp
    show "\<forall>y \<in> set out. \<bar>y\<bar> \<le> f32 (dbl (p * c))"
    proof
      fix y assume "y \<in> set out"
      then obtain x where x: "x \<in> set (h ! buffer)" "y = f32 (dbl (x * c))"
        by (auto simp: out_def)
      have "\<bar>y\<bar> = f32 (dbl (\<bar>x\<bar> * c))" unfolding x(2) using c by (rule stored_abs)
      also have "\<dots> \<le> f32 (dbl (p * c))" using c le x(1) by (intro stored_mono) simp_all
      finally show "\<bar>y\<bar> \<le> f32 (dbl (p * c))" .
    qed
    from ex obtain x where x: "x \<in> set (h ! buffer)" "\<bar>x\<bar> = p" by blast
    have "f32 (dbl (x * c)) \<in> set out" using x(1) by (simp add: out_def)
    moreover have "\<bar>f32 (dbl (x * c))\<bar> = f32 (dbl (p * c))"
      using stored_abs [OF c, of x] x(2) by simp
    ultimately show "\<exists>y \<in> set out. \<bar>y\<bar> = f32 (dbl (p * c))" by blast
  qed
  have near: "(\<forall>i < length out. \<bar>out ! i - h ! buffer ! i * (t / p)\<bar> \<le> t / 2 ^ 23) \<and>
              \<bar>f32 (dbl (p * c)) - t\<bar> \<le> t / 2 ^ 23"
    if b: "1 / 2 ^ 100 \<le> t \<and> p \<le> 2 ^ 100"
  proof
    show "\<forall>i < length out. \<bar>out ! i - h ! buffer ! i * (t / p)\<bar> \<le> t / 2 ^ 23"
    proof (intro allI impI)
      fix i assume i: "i < length out"
      then have "h ! buffer ! i \<in> set (h ! buffer)" by (simp add: len)
      then have "\<bar>h ! buffer ! i\<bar> \<le> p" using le by blast
      then have "\<bar>f32 (dbl (h ! buffer ! i * dbl (t / p))) - h ! buffer ! i * (t / p)\<bar> \<le> t / 2 ^ 23"
        using pos b by (intro stored_error) simp_all
      then show "\<bar>out ! i - h ! buffer ! i * (t / p)\<bar> \<le> t / 2 ^ 23"
        using nth i by (simp add: c_def)
    qed
    have "\<bar>f32 (dbl (p * dbl (t / p))) - p * (t / p)\<bar> \<le> t / 2 ^ 23"
      using pos b by (intro stored_error) simp_all
    then show "\<bar>f32 (dbl (p * c)) - t\<bar> \<le> t / 2 ^ 23" using pos by (simp add: c_def)
  qed
  show "\<exists>out. normalize_samples h buffer target = (h @ [out], length h) \<and>
               length out = length (h ! buffer) \<and>
               (\<forall>i < length out. out ! i = f32 (dbl (h ! buffer ! i * dbl (t / p)))) \<and>
               (0 \<le> t \<longrightarrow> (\<forall>y \<in> set out. \<bar>y\<bar> \<le> f32 (dbl (p * dbl (t / p)))) \<and>
                             (\<exists>y \<in> set out. \<bar>y\<bar> = f32 (dbl (p * dbl (t / p))))) \<and>
               (1 / 2 ^ 100 \<le> t \<and> p \<le> 2 ^ 100 \<longrightarrow>
                  (\<forall>i < length out. \<bar>out ! i - h ! buffer ! i * (t / p)\<bar> \<le> t / 2 ^ 23) \<and>
                  \<bar>f32 (dbl (p * dbl (t / p))) - t\<bar> \<le> t / 2 ^ 23)"
    using eq len nth peak near unfolding c_def by blast
next
  assume "\<forall>x \<in> set (h ! buffer). x = 0"
  then have "peak_abs (h ! buffer) = 0" by (simp add: peak_abs_zero_iff)
  then show "normalize_samples h buffer target = (h, buffer)"
    by (simp add: normalize_samples_def Let_def)
qed

text \<open>
  A buffer with peak 3 normalized to the default target: every sample is stored as the
  single nearest to its product with the double nearest to 0.95 / 3.
\<close>

theorem normalize_scales_to_target_witness:
  "normalize_samples [[3, - 1]] 0 None
     = ([[3, - 1], [15938355 / 16777216, - (5312785 / 16777216)]], 1) \<and>
   \<bar>15938355 / 16777216 - dbl (95 / 100)\<bar> \<le> dbl (95 / 100) / 2 ^ 23 \<and>
   normalize_samples [[0, 0]] 0 (Some (1 / 2)) = ([[0, 0]], 0)"
proof -
  let ?h = "[[3, - 1 :: real]]"
  let ?t = "dbl (95 / 100)"
  have hyp: "0 < (3 :: real) \<and> (\<forall>x \<in> set (?h ! 0). \<bar>x\<bar> \<le> 3) \<and> (\<exists>x \<in> set (?h ! 0). \<bar>x\<bar> = 3) \<and>
             (None = Some ?t \<or> None = None \<and> ?t = dbl (95 / 100))"
    by simp
  have tv: "?t = 4278419646001971 / 4503599627370496" by (simp add: float_eval)
  have rng: "1 / 2 ^ 100 \<le> ?t \<and> (3 :: real) \<le> 2 ^ 100" unfolding tv by simp
  have "\<exists>out. normalize_samples ?h 0 None = (?h @ [out], length ?h) \<and>
          length out = length (?h ! 0) \<and>
          (\<forall>i < length out. out ! i = f32 (dbl (?h ! 0 ! i * dbl (?t / 3)))) \<and>
          \<bar>f32 (dbl (3 * dbl (?t / 3))) - ?t\<bar> \<le> ?t / 2 ^ 23"
    using mp [OF normalize_scales_to_target
        [where h = ?h and buffer = 0 and p = 3 and target = None and t = ?t, THEN conjunct1] hyp]
      rng
    by blast
  then obtain out where o: "normalize_samples ?h 0 None = (?h @ [out], length ?h)"
      "length out = length (?h ! 0)"
      "\<forall>i < length out. out ! i = f32 (dbl (?h ! 0 ! i * dbl (?t / 3)))"
      "\<bar>f32 (dbl (3 * dbl (?t / 3))) - ?t\<bar> \<le> ?t / 2 ^ 23"
    by blast
  have l: "length out = 2" using o(2) by simp
  have v0: "f32 (dbl (3 * dbl (?t / 3))) = 15938355 / 16777216" by (simp add: float_eval)
  have v1: "f32 (dbl (- 1 * dbl (?t / 3))) = - (5312785 / 16777216)" by (simp add: float_eval)
  have near: "\<bar>15938355 / 16777216 - ?t\<bar> \<le> ?t / 2 ^ 23" using o(4) unfolding v0 .
  have "out ! 0 = f32 (dbl (3 * dbl (?t / 3)))" using o(3) l by simp
  then have o0: "out ! 0 = 15938355 / 16777216" unfolding v0 .
  have "out ! 1 = f32 (dbl (- 1 * dbl (?t / 3)))" using o(3) l by simp
  then have o1: "out ! 1 = - (5312785 / 16777216)" unfolding v1 .
  have "out = [15938355 / 16777216, - (5312785 / 16777216)]"
  proof (rule nth_equalityI)
    show "length out = length [15938355 / 16777216, - (5312785 / 16777216) :: real]"
      using l by simp
    fix i assume "i < length out"
    then have "i = 0 \<or> i = 1" using l by linarith
    then show "out ! i = [15938355 / 16777216, - (5312785 / 16777216)] ! i"
      using o0 o1 by auto
  qed
  then have a: "normalize_samples ?h 0 None
     = ([[3, - 1], [15938355 / 16777216, - (5312785 / 16777216)]], 1)"
    using o(1) by simp
  have z: "\<forall>x \<in> set ([[0, 0]] ! 0 :: samples). x = 0" by simp
  have b: "normalize_samples [[0, 0]] 0 (Some (1 / 2)) = ([[0, 0]], 0)"
    by (rule mp [OF normalize_scales_to_target
        [where h = "[[0, 0]]" and buffer = 0 and target = "Some (1 / 2)", THEN conjunct2] z])
  show ?thesis using a near b by (intro conjI)
qed

text \<open>
  C5 as stated fails on its own example. A buffer with peak 2 and the target 0.95: the
  samples 2, -1 and 0.5 become 0.949999988..., -0.474999994... and 0.237499997..., the
  singles nearest to the products, so the output peak is not the target, and no sample is
  its input times exactly 0.475.
\<close>

theorem normalize_peak_two_not_exact:
  "buffer_of (normalize_samples [[2, - 1, 1 / 2]] 0 (Some (dbl (95 / 100))))
     = [15938355 / 16777216, - (15938355 / 33554432), 15938355 / 67108864] \<and>
   dbl (95 / 100) = 4278419646001971 / 4503599627370496 \<and>
   (15938355 / 16777216 :: real) < 4278419646001971 / 4503599627370496 \<and>
   (15938355 / 16777216 :: real) \<noteq> 2 * (475 / 1000)"
proof (intro conjI)
  have t: "dbl (95 / 100) = 4278419646001971 / 4503599627370496" by (simp add: float_eval)
  show "dbl (95 / 100) = 4278419646001971 / 4503599627370496" by (rule t)
  have p: "peak_abs [2, - 1, 1 / 2] = 2" by (simp add: peak_abs_def)
  have s: "dbl (4278419646001971 / 4503599627370496 / 2) = 4278419646001971 / 9007199254740992"
    by (simp add: float_eval)
  have v0: "f32 (dbl (2 * (4278419646001971 / 9007199254740992))) = 15938355 / 16777216"
    by (simp add: float_eval)
  have v1: "f32 (dbl (- 1 * (4278419646001971 / 9007199254740992))) = - (15938355 / 33554432)"
    by (simp add: float_eval)
  have v2: "f32 (dbl (1 / 2 * (4278419646001971 / 9007199254740992))) = 15938355 / 67108864"
    by (simp add: float_eval)
  have "normalize_samples [[2, - 1, 1 / 2]] 0 (Some (dbl (95 / 100)))
      = ([[2, - 1, 1 / 2],
          [f32 (dbl (2 * (4278419646001971 / 9007199254740992))),
           f32 (dbl (- 1 * (4278419646001971 / 9007199254740992))),
           f32 (dbl (1 / 2 * (4278419646001971 / 9007199254740992)))]], 1)"
    unfolding normalize_samples_def target_value_def Let_def t
    by (simp only: nth_Cons_0 p s option.case alloc_def list.map append_Cons append_Nil
          list.size) simp
  then show "buffer_of (normalize_samples [[2, - 1, 1 / 2]] 0 (Some (dbl (95 / 100))))
     = [15938355 / 16777216, - (15938355 / 33554432), 15938355 / 67108864]"
    unfolding v0 v1 v2 by (simp add: buffer_of_def)
  show "(15938355 / 16777216 :: real) < 4278419646001971 / 4503599627370496" by simp
  show "(15938355 / 16777216 :: real) \<noteq> 2 * (475 / 1000)" by simp
qed

section \<open>Mixing\<close>

lemma num_add_NaN [simp]: "num_add NaN x = NaN" "num_add x NaN = NaN"
  by (cases x; simp)+

lemma foldl_num_add_NaN: "foldl (\<lambda>acc i. num_add acc (f i)) NaN is = NaN"
  by (induction "is") simp_all

lemma foldl_num_add_Num:
  "(\<forall>i \<in> set is. \<exists>v. f i = Num (g i)) \<Longrightarrow>
     foldl (\<lambda>acc i. num_add acc (f i)) (Num a) is = Num (a + sum_list (map g is))"
  by (induction "is" arbitrary: a) (auto simp: add.assoc)

lemma foldl_num_add_has_NaN:
  "i \<in> set is \<Longrightarrow> f i = NaN \<Longrightarrow> foldl (\<lambda>acc i. num_add acc (f i)) a is = NaN"
proof (induction "is" arbitrary: a)
  case Nil
  then show ?case by simp
next
  case (Cons k ks)
  show ?case
  proof (cases "k = i")
    case True
    then show ?thesis using Cons.prems by (simp add: foldl_num_add_NaN)
  next
    case False
    then show ?thesis using Cons by simp
  qed
qed

lemma length_foldl_mix_pass:
  "length (foldl (mix_pass buffers gains len) res is) = (if is = [] then length res else len)"
  by (induction "is" arbitrary: res) (simp_all add: mix_pass_def)

lemma nth_foldl_mix_pass:
  "j < len \<Longrightarrow> length res = len \<Longrightarrow>
   foldl (mix_pass buffers gains len) res is ! j
     = foldl (\<lambda>acc i. num_add acc (num_mul (element (buffers ! i) j) (gain_of gains i))) (res ! j) is"
proof (induction "is" arbitrary: res)
  case Nil
  show ?case by simp
next
  case (Cons k ks)
  have "length (mix_pass buffers gains len res k) = len" by (simp add: mix_pass_def)
  moreover have "mix_pass buffers gains len res k ! j
      = num_add (res ! j) (num_mul (element (buffers ! k) j) (gain_of gains k))"
    using Cons.prems by (simp add: mix_pass_def)
  ultimately show ?case using Cons.IH [of "mix_pass buffers gains len res k"] Cons.prems by simp
qed

text \<open>
  C3 (as the code has it). \<^verbatim>\<open>mix\<close> never fails. Without buffers it returns an empty
  buffer. With a gain for each buffer, the result has the length of the first buffer; at an
  index that every buffer has, the sample is the weighted sum of the buffers' samples, and at
  an index of the first buffer that some shorter buffer lacks, the sample is \<^verbatim>\<open>NaN\<close>. For
  buffers of equal length the result is thus the sample-wise weighted sum.
\<close>

theorem mix_weighted_sum_or_NaN:
  "mix [] gains = [] \<and>
   (buffers \<noteq> [] \<and> length gs = length buffers \<longrightarrow>
      length (mix buffers (Some gs)) = length (buffers ! 0) \<and>
      (\<forall>j < length (buffers ! 0).
         mix buffers (Some gs) ! j =
           (if \<forall>b \<in> set buffers. j < length b
            then Num (\<Sum>i < length buffers. buffers ! i ! j * gs ! i)
            else NaN)))"
proof (intro conjI impI allI)
  show "mix [] gains = []" by (simp add: mix_def)
next
  assume a: "buffers \<noteq> [] \<and> length gs = length buffers"
  show "length (mix buffers (Some gs)) = length (buffers ! 0)"
    using a by (simp add: mix_def Let_def length_foldl_mix_pass)
next
  fix j
  assume a: "buffers \<noteq> [] \<and> length gs = length buffers" and j: "j < length (buffers ! 0)"
  let ?f = "\<lambda>i. num_mul (element (buffers ! i) j) (gain_of (Some gs) i)"
  have m: "mix buffers (Some gs) ! j = foldl (\<lambda>acc i. num_add acc (?f i)) (Num 0) [0..<length buffers]"
    using a j by (simp add: mix_def Let_def nth_foldl_mix_pass)
  show "mix buffers (Some gs) ! j =
           (if \<forall>b \<in> set buffers. j < length b
            then Num (\<Sum>i < length buffers. buffers ! i ! j * gs ! i)
            else NaN)"
  proof (cases "\<forall>b \<in> set buffers. j < length b")
    case True
    have "\<forall>i \<in> set [0..<length buffers]. \<exists>v. ?f i = Num (buffers ! i ! j * gs ! i)"
      using True a by (auto simp: element_def gain_of_def)
    then have "foldl (\<lambda>acc i. num_add acc (?f i)) (Num 0) [0..<length buffers]
        = Num (0 + sum_list (map (\<lambda>i. buffers ! i ! j * gs ! i) [0..<length buffers]))"
      by (rule foldl_num_add_Num)
    also have "sum_list (map (\<lambda>i. buffers ! i ! j * gs ! i) [0..<length buffers])
        = (\<Sum>i < length buffers. buffers ! i ! j * gs ! i)"
      by (simp add: sum_list_sum_nth atLeast0LessThan)
    finally show ?thesis using m True by simp
  next
    case False
    then obtain i where i: "i < length buffers" "\<not> j < length (buffers ! i)"
      by (auto simp: in_set_conv_nth)
    then have "?f i = NaN" by (simp add: element_def)
    moreover have "i \<in> set [0..<length buffers]" using i by simp
    ultimately have "foldl (\<lambda>acc i. num_add acc (?f i)) (Num 0) [0..<length buffers] = NaN"
      by (rule foldl_num_add_has_NaN [rotated])
    then show ?thesis using m False by simp
  qed
qed

text \<open>Two buffers of equal length with gains (0.5, 0.5).\<close>

theorem mix_weighted_sum_or_NaN_witness:
  "mix [[1, 3], [5, 7]] (Some [1 / 2, 1 / 2]) ! 0 = Num 3 \<and>
   mix [[1, 3], [5, 7]] (Some [1 / 2, 1 / 2]) ! 1 = Num 5 \<and>
   length (mix [[1, 3], [5, 7]] (Some [1 / 2, 1 / 2])) = 2"
  using mix_weighted_sum_or_NaN [where buffers = "[[1, 3], [5, 7]]" and gs = "[1 / 2, 1 / 2]"]
  by (simp add: lessThan_Suc numeral_2_eq_2)

text \<open>
  C3 as stated fails: with a second buffer shorter than the first, \<^verbatim>\<open>mix\<close> returns a
  buffer, whose second sample is \<^verbatim>\<open>NaN\<close>; nothing is raised.
\<close>

theorem mix_unequal_lengths_returns_buffer:
  "mix [[1, 2], [3]] (Some [1, 1]) = [Num 4, NaN]"
  by (simp add: mix_def mix_pass_def element_def gain_of_def numeral_2_eq_2)

section \<open>The ADSR envelope\<close>

lemma ramp_step_attack: "0 < A \<Longrightarrow> 1 / real A \<le> ramp_step A D R s"
  by (simp add: ramp_step_def)

lemma ramp_step_decay: "0 < D \<Longrightarrow> (1 - s) / real D \<le> ramp_step A D R s"
  by (simp add: ramp_step_def max.coboundedI2)

lemma ramp_step_release: "0 < R \<Longrightarrow> s / real R \<le> ramp_step A D R s"
  by (simp add: ramp_step_def max.coboundedI2)

lemma ramp_step_nonneg: "0 \<le> ramp_step A D R s"
  by (simp add: ramp_step_def max.coboundedI1)

lemma step_attack:
  assumes "Suc i < A"
  shows "adsr_curve A D S R s (Suc i) - adsr_curve A D S R s i = 1 / real A"
  using assms by (simp add: adsr_curve_def field_simps)

lemma step_attack_decay:
  assumes "Suc i = A" "0 < D"
  shows "adsr_curve A D S R s (Suc i) - adsr_curve A D S R s i = 1 / real A"
proof -
  have a: "adsr_curve A D S R s (Suc i) = 1" using assms by (simp add: adsr_curve_def)
  have b: "adsr_curve A D S R s i = real i / real A" using assms by (simp add: adsr_curve_def)
  have "real A = real i + 1" using assms by linarith
  then show ?thesis unfolding a b by (simp add: field_simps)
qed

lemma step_decay:
  assumes "A \<le> i" "Suc i < A + D"
  shows "adsr_curve A D S R s i - adsr_curve A D S R s (Suc i) = (1 - s) / real D"
proof -
  have d: "0 < D" using assms by linarith
  have a: "adsr_curve A D S R s (Suc i) = 1 - (1 - s) * (real (Suc i - A) / real D)"
    using assms by (simp add: adsr_curve_def)
  have b: "adsr_curve A D S R s i = 1 - (1 - s) * (real (i - A) / real D)"
    using assms by (simp add: adsr_curve_def)
  have "real (Suc i - A) = real (i - A) + 1" using assms by (simp add: Suc_diff_le)
  then show ?thesis unfolding a b using d by (simp add: field_simps)
qed

lemma curve_after_decay:
  assumes "i = A + D"
  shows "adsr_curve A D S R s i = s"
  using assms by (simp add: adsr_curve_def)

lemma step_decay_end:
  assumes "A \<le> i" "Suc i = A + D"
  shows "adsr_curve A D S R s i - adsr_curve A D S R s (Suc i) = (1 - s) / real D"
proof -
  have d: "0 < D" using assms by linarith
  have a: "adsr_curve A D S R s (Suc i) = s" using assms by (simp add: curve_after_decay)
  have b: "adsr_curve A D S R s i = 1 - (1 - s) * (real (i - A) / real D)"
    using assms by (simp add: adsr_curve_def)
  have "real D = real (i - A) + 1" using assms by linarith
  then show ?thesis unfolding a b using d by (simp add: field_simps)
qed

lemma step_sustain:
  assumes "A + D \<le> i" "Suc i \<le> A + D + S"
  shows "adsr_curve A D S R s (Suc i) - adsr_curve A D S R s i = 0"
proof -
  have b: "adsr_curve A D S R s i = s" using assms by (simp add: adsr_curve_def)
  have a: "adsr_curve A D S R s (Suc i) = s"
  proof (cases "Suc i < A + D + S")
    case True
    then show ?thesis using assms by (simp add: adsr_curve_def)
  next
    case False
    then have "Suc i = A + D + S" using assms by linarith
    then show ?thesis by (simp add: adsr_curve_def)
  qed
  show ?thesis unfolding a b by simp
qed

lemma step_release:
  assumes "A + D + S \<le> i" "Suc i < A + D + S + R"
  shows "adsr_curve A D S R s i - adsr_curve A D S R s (Suc i) = s / real R"
proof -
  have r: "0 < R" using assms by linarith
  have a: "adsr_curve A D S R s (Suc i) = s * (1 - real (Suc i - (A + D + S)) / real R)"
    using assms by (simp add: adsr_curve_def)
  have b: "adsr_curve A D S R s i = s * (1 - real (i - (A + D + S)) / real R)"
    using assms by (simp add: adsr_curve_def)
  have "real (Suc i - (A + D + S)) = real (i - (A + D + S)) + 1"
    using assms by (simp add: Suc_diff_le)
  then show ?thesis unfolding a b using r by (simp add: field_simps)
qed

lemma adsr_curve_continuous:
  assumes s: "0 \<le> s" "s \<le> 1"
      and i: "Suc i < A + D + S + R"
      and d: "A = 0 \<or> 0 < D"
  shows "\<bar>adsr_curve A D S R s (Suc i) - adsr_curve A D S R s i\<bar> \<le> ramp_step A D R s"
proof -
  consider (att) "Suc i < A" | (attdec) "Suc i = A" 
    | (dec) "A \<le> i" "Suc i < A + D" | (decend) "A \<le> i" "Suc i = A + D"
    | (sus) "A + D \<le> i" "Suc i \<le> A + D + S" | (rel) "A + D + S \<le> i"
    by linarith
  then show ?thesis
  proof cases
    case att
    then have "0 < A" by linarith
    then show ?thesis using step_attack [OF att, of D S R s] ramp_step_attack [of A D R s] by simp
  next
    case attdec
    then have a: "0 < A" by linarith
    then have "0 < D" using d by simp
    then show ?thesis
      using step_attack_decay [OF attdec, of D S R s] ramp_step_attack [OF a, of D R s] by simp
  next
    case dec
    then have "0 < D" by linarith
    then have "(1 - s) / real D \<le> ramp_step A D R s" by (rule ramp_step_decay)
    moreover have "0 \<le> (1 - s) / real D" using s by simp
    ultimately show ?thesis using step_decay [OF dec, of S R s] by simp
  next
    case decend
    then have "0 < D" by linarith
    then have "(1 - s) / real D \<le> ramp_step A D R s" by (rule ramp_step_decay)
    moreover have "0 \<le> (1 - s) / real D" using s by simp
    ultimately show ?thesis using step_decay_end [OF decend, of S R s] by simp
  next
    case sus
    then show ?thesis using step_sustain [OF sus, of R s] ramp_step_nonneg [of A D R s] by simp
  next
    case rel
    then have "0 < R" using i by linarith
    then have "s / real R \<le> ramp_step A D R s" by (rule ramp_step_release)
    moreover have "0 \<le> s / real R" using s by simp
    ultimately show ?thesis using step_release [OF rel i, of s] by simp
  qed
qed

lemma envelope_amp_adsr_curve:
  assumes "i < A + D + S + R"
  shows "envelope_amp (int A) (int D) (int S) (int R) s (int i) = adsr_curve A D S R s i"
proof -
  have a: "real_of_int (int i - int A) = real (i - A)" if "A \<le> i"
    using that by (simp add: of_nat_diff)
  have b: "real_of_int (int i - int A - int D - int S) = real (i - (A + D + S))" if "A + D + S \<le> i"
    using that by (simp add: of_nat_diff)
  show ?thesis
    unfolding envelope_amp_def adsr_curve_def using a b
    by (auto simp: not_less simp flip: of_nat_add)
qed

lemma adsr_curve_nonneg:
  assumes "0 \<le> s" "s \<le> 1" "i < A + D + S + R"
  shows "0 \<le> adsr_curve A D S R s i"
proof -
  consider (att) "i < A" | (dec) "A \<le> i" "i < A + D" | (sus) "A + D \<le> i" "i < A + D + S"
    | (rel) "A + D + S \<le> i"
    by linarith
  then show ?thesis
  proof cases
    case att
    then show ?thesis by (simp add: adsr_curve_def)
  next
    case dec
    define q where "q = real (i - A) / real D"
    have q: "0 \<le> q" "q \<le> 1" using dec by (simp_all add: q_def field_simps)
    have "(1 - s) * q \<le> (1 - s) * 1" using assms(2) q by (intro mult_left_mono) simp_all
    then have "(1 - s) * q \<le> 1 - s" by simp
    moreover have "adsr_curve A D S R s i = 1 - (1 - s) * q"
      using dec by (simp add: adsr_curve_def q_def)
    ultimately show ?thesis using assms(1) by linarith
  next
    case sus
    then show ?thesis using assms by (simp add: adsr_curve_def)
  next
    case rel
    define q where "q = real (i - (A + D + S)) / real R"
    have "i - (A + D + S) < R" using rel assms(3) by linarith
    then have q: "q \<le> 1" by (simp add: q_def field_simps)
    have "adsr_curve A D S R s i = s * (1 - q)"
      using rel by (simp add: adsr_curve_def q_def)
    moreover have "0 \<le> s * (1 - q)" using assms(1) q by (intro mult_nonneg_nonneg) simp_all
    ultimately show ?thesis by simp
  qed
qed

lemma applyEnvelope_result:
  "applyEnvelope h buffer attack decay sustain release duration
     = (h @ [map (\<lambda>i. h ! buffer ! i *
            max 0 (envelope_amp \<lfloor>dbl (attack * SAMPLE_RATE)\<rfloor> \<lfloor>dbl (decay * SAMPLE_RATE)\<rfloor>
                     (int (length (h ! buffer)) - \<lfloor>dbl (attack * SAMPLE_RATE)\<rfloor>
                        - \<lfloor>dbl (decay * SAMPLE_RATE)\<rfloor> - \<lfloor>dbl (release * SAMPLE_RATE)\<rfloor>)
                     \<lfloor>dbl (release * SAMPLE_RATE)\<rfloor> sustain (int i)))
          [0..<length (h ! buffer)]], length h)"
  by (simp add: applyEnvelope_def alloc_def Let_def)

lemma buffer_of_applyEnvelope_nth:
  "i < length (h ! buffer) \<Longrightarrow>
   buffer_of (applyEnvelope h buffer attack decay sustain release duration) ! i
     = h ! buffer ! i *
            max 0 (envelope_amp \<lfloor>dbl (attack * SAMPLE_RATE)\<rfloor> \<lfloor>dbl (decay * SAMPLE_RATE)\<rfloor>
                     (int (length (h ! buffer)) - \<lfloor>dbl (attack * SAMPLE_RATE)\<rfloor>
                        - \<lfloor>dbl (decay * SAMPLE_RATE)\<rfloor> - \<lfloor>dbl (release * SAMPLE_RATE)\<rfloor>)
                     \<lfloor>dbl (release * SAMPLE_RATE)\<rfloor> sustain (int i))"
  by (simp add: applyEnvelope_result buffer_of_def)

text \<open>
  C1 (as the code has it). For non-negative attack, decay and release times, a sustain
  level in [0, 1] and a buffer that has room for the three stages as \<^verbatim>\<open>applyEnvelope\<close>
  counts them (the floor of seconds times 44100, the product a double), \<^verbatim>\<open>applyEnvelope\<close>
  returns a new buffer of the same sample count; the attack, decay, sustain-hold and
  release sample counts sum exactly to it, the sustain hold taking the remainder; every
  output sample is the input sample times the ADSR curve (ramp 0 to 1, ramp 1 to the
  sustain level, flat, ramp to 0); and, when the decay stage has at least one sample or
  there is no attack stage, no two neighbouring values of the curve differ by more than the
  largest per-sample step of the three ramps.
\<close>

theorem applyEnvelope_adsr:
  assumes valid: "0 \<le> attack" "0 \<le> decay" "0 \<le> release" "0 \<le> sustain" "sustain \<le> 1"
      and fit: "\<lfloor>dbl (attack * SAMPLE_RATE)\<rfloor> + \<lfloor>dbl (decay * SAMPLE_RATE)\<rfloor>
                  + \<lfloor>dbl (release * SAMPLE_RATE)\<rfloor> \<le> int (length (h ! buffer))"
  shows "let n = length (h ! buffer);
             A = nat \<lfloor>dbl (attack * SAMPLE_RATE)\<rfloor>;
             D = nat \<lfloor>dbl (decay * SAMPLE_RATE)\<rfloor>;
             R = nat \<lfloor>dbl (release * SAMPLE_RATE)\<rfloor>;
             S = n - A - D - R
         in A + D + S + R = n \<and>
            (\<exists>out. applyEnvelope h buffer attack decay sustain release duration
                      = (h @ [out], length h) \<and>
                   length out = n \<and>
                   (\<forall>i < n. out ! i = h ! buffer ! i * adsr_curve A D S R sustain i)) \<and>
            (A = 0 \<or> 0 < D \<longrightarrow>
               (\<forall>i. Suc i < n \<longrightarrow>
                  \<bar>adsr_curve A D S R sustain (Suc i) - adsr_curve A D S R sustain i\<bar>
                    \<le> ramp_step A D R sustain))"
proof -
  define n where "n = length (h ! buffer)"
  define A where "A = nat \<lfloor>dbl (attack * SAMPLE_RATE)\<rfloor>"
  define D where "D = nat \<lfloor>dbl (decay * SAMPLE_RATE)\<rfloor>"
  define R where "R = nat \<lfloor>dbl (release * SAMPLE_RATE)\<rfloor>"
  define S where "S = n - A - D - R"
  have sr: "0 \<le> SAMPLE_RATE" by (simp add: SAMPLE_RATE_def)
  have nn: "0 \<le> \<lfloor>dbl (x * SAMPLE_RATE)\<rfloor>" if "0 \<le> x" for x
  proof -
    have "0 \<le> dbl (x * SAMPLE_RATE)" using that sr by (intro dbl_nonneg) simp
    then show ?thesis by simp
  qed
  have fl: "\<lfloor>dbl (attack * SAMPLE_RATE)\<rfloor> = int A" "\<lfloor>dbl (decay * SAMPLE_RATE)\<rfloor> = int D"
           "\<lfloor>dbl (release * SAMPLE_RATE)\<rfloor> = int R"
    using valid(1-3) nn by (simp_all add: A_def D_def R_def)
  have le: "A + D + R \<le> n" using fit unfolding fl n_def by linarith
  then have total: "A + D + S + R = n" by (simp add: S_def)
  have sus: "int n - int A - int D - int R = int S" using le by (simp add: S_def)
  define out where "out = map (\<lambda>i. h ! buffer ! i *
        max 0 (envelope_amp (int A) (int D) (int S) (int R) sustain (int i))) [0..<n]"
  have res: "applyEnvelope h buffer attack decay sustain release duration = (h @ [out], length h)"
    unfolding applyEnvelope_result fl out_def n_def [symmetric] sus ..
  have nth: "out ! i = h ! buffer ! i * adsr_curve A D S R sustain i" if "i < n" for i
  proof -
    have i: "i < A + D + S + R" using that total by simp
    have "0 \<le> adsr_curve A D S R sustain i" using valid(4,5) i by (rule adsr_curve_nonneg)
    then show ?thesis using that by (simp add: out_def envelope_amp_adsr_curve [OF i])
  qed
  have cont: "\<bar>adsr_curve A D S R sustain (Suc i) - adsr_curve A D S R sustain i\<bar>
                \<le> ramp_step A D R sustain" if "Suc i < n" "A = 0 \<or> 0 < D" for i
    using valid(4,5) that total by (intro adsr_curve_continuous) simp_all
  have "A + D + S + R = n \<and>
        (\<exists>out. applyEnvelope h buffer attack decay sustain release duration
                  = (h @ [out], length h) \<and>
               length out = n \<and>
               (\<forall>i < n. out ! i = h ! buffer ! i * adsr_curve A D S R sustain i)) \<and>
        (A = 0 \<or> 0 < D \<longrightarrow>
           (\<forall>i. Suc i < n \<longrightarrow>
              \<bar>adsr_curve A D S R sustain (Suc i) - adsr_curve A D S R sustain i\<bar>
                \<le> ramp_step A D R sustain))"
    using total res nth cont by (auto simp: out_def)
  then show ?thesis
    unfolding Let_def n_def [symmetric] A_def [symmetric] D_def [symmetric] R_def [symmetric]
      S_def [symmetric] .
qed

theorem applyEnvelope_adsr_witness:
  "buffer_of (applyEnvelope [[1, 1, 1, 1, 1, 1, 1, 1]] 0 (dbl (5 / 100000)) (dbl (5 / 100000))
                (1 / 2) (dbl (5 / 100000)) (dbl (2 / 10000)))
     = [0, 1 / 2, 1, 3 / 4, 1 / 2, 1 / 2, 1 / 2, 1 / 4] \<and>
   ramp_step 2 2 2 (1 / 2) = 1 / 2"
proof -
  let ?h = "[[1, 1, 1, 1, 1, 1, 1, 1 :: real]]"
  let ?t = "dbl (5 / 100000)"
  let ?call = "applyEnvelope ?h 0 ?t ?t (1 / 2) ?t (dbl (2 / 10000))"
  have t: "?t = 7378697629483821 / 147573952589676412928" by (simp add: float_eval)
  have fl: "\<lfloor>dbl (?t * SAMPLE_RATE)\<rfloor> = 2" unfolding t by (simp add: SAMPLE_RATE_def float_eval)
  have nn: "0 \<le> ?t" unfolding t by simp
  have n: "length (?h ! 0) = 8" by simp
  have s: "8 - 2 - 2 - 2 = (2 :: nat)" by simp
  have fit: "\<lfloor>dbl (?t * SAMPLE_RATE)\<rfloor> + \<lfloor>dbl (?t * SAMPLE_RATE)\<rfloor> + \<lfloor>dbl (?t * SAMPLE_RATE)\<rfloor>
               \<le> int (length (?h ! 0))"
    unfolding fl by simp
  have "\<exists>out. ?call = (?h @ [out], length ?h) \<and> length out = 8 \<and>
          (\<forall>i < 8. out ! i = ?h ! 0 ! i * adsr_curve 2 2 2 2 (1 / 2) i)"
    using applyEnvelope_adsr [where h = ?h and buffer = 0
      and attack = ?t and decay = ?t and release = ?t
      and sustain = "1 / 2" and duration = "dbl (2 / 10000)", OF nn nn nn _ _ fit]
    unfolding Let_def fl n s by simp
  then obtain out where o: "?call = (?h @ [out], length ?h)" "length out = 8"
      "\<forall>i < 8. out ! i = ?h ! 0 ! i * adsr_curve 2 2 2 2 (1 / 2) i"
    by blast
  have "out = map (\<lambda>i. ?h ! 0 ! i * adsr_curve 2 2 2 2 (1 / 2) i) [0..<8]"
    using o(2,3) by (intro nth_equalityI) simp_all
  also have "\<dots> = [0, 1 / 2, 1, 3 / 4, 1 / 2, 1 / 2, 1 / 2, 1 / 4]"
    by (simp add: adsr_curve_def upt_conv_Cons numeral_eq_Suc)
  finally have "out = [0, 1 / 2, 1, 3 / 4, 1 / 2, 1 / 2, 1 / 2, 1 / 4]" .
  then show ?thesis using o(1) by (simp add: buffer_of_def ramp_step_def)
qed

lemma stage_count_441: "\<lfloor>dbl (dbl (1 / 100) * SAMPLE_RATE)\<rfloor> = 441"
  by (simp add: SAMPLE_RATE_def float_eval)

lemma stage_count_2205: "\<lfloor>dbl (dbl (5 / 100) * SAMPLE_RATE)\<rfloor> = 2205"
  by (simp add: SAMPLE_RATE_def float_eval)

lemma stage_count_11025: "\<lfloor>dbl (dbl (25 / 100) * SAMPLE_RATE)\<rfloor> = 11025"
  by (simp add: SAMPLE_RATE_def float_eval)

lemma stage_count_15434: "\<lfloor>dbl (dbl (35 / 100) * SAMPLE_RATE)\<rfloor> = 15434"
  by (simp add: SAMPLE_RATE_def float_eval)

lemma sum_fits_in_doubles:
  "dbl (dbl (dbl (25 / 100) + dbl (5 / 100)) + dbl (5 / 100)) \<le> dbl (35 / 100)"
  by (simp add: float_eval)

text \<open>
  C1 as stated fails in two ways. With a decay of zero (an attack and a release of 0.01 s,
  441 samples each, in a note of 0.05 s, 2205 samples, at a sustain level of 0.5) the
  envelope falls from 440/441 to 0.5 between samples 440 and 441, two hundred times the
  step of any of its ramps. And with an attack of 0.25 s, a decay and a release of 0.05 s in
  a note of 0.35 s, where \<^verbatim>\<open>0.25 + 0.05 + 0.05 <= 0.35\<close> holds in JavaScript, the note has
  15434 samples, since \<^verbatim>\<open>0.35 * 44100\<close> is a little less than 15435, and the three stages
  take 15435: the sample counts do not sum to the total, the sustain hold has \<open>-1\<close>
  samples, and the envelope steps by 1/2205 between samples 13229 and 13230, twice the
  step of its ramps.
\<close>

theorem applyEnvelope_not_adsr:
  "\<lfloor>dbl (dbl (1 / 100) * SAMPLE_RATE)\<rfloor> = 441 \<and>
   \<lfloor>dbl (dbl (5 / 100) * SAMPLE_RATE)\<rfloor> = 2205 \<and>
   ramp_step 441 0 441 (1 / 2) < 1 / 400 \<and>
   49 / 100 <
     \<bar>buffer_of (applyEnvelope [replicate 2205 1] 0 (dbl (1 / 100)) 0 (1 / 2) (dbl (1 / 100))
                   (dbl (5 / 100))) ! 441
      - buffer_of (applyEnvelope [replicate 2205 1] 0 (dbl (1 / 100)) 0 (1 / 2) (dbl (1 / 100))
                     (dbl (5 / 100))) ! 440\<bar> \<and>
   dbl (dbl (dbl (25 / 100) + dbl (5 / 100)) + dbl (5 / 100)) \<le> dbl (35 / 100) \<and>
   \<lfloor>dbl (dbl (35 / 100) * SAMPLE_RATE)\<rfloor> = 15434 \<and>
   \<lfloor>dbl (dbl (25 / 100) * SAMPLE_RATE)\<rfloor> + \<lfloor>dbl (dbl (5 / 100) * SAMPLE_RATE)\<rfloor>
     + \<lfloor>dbl (dbl (5 / 100) * SAMPLE_RATE)\<rfloor> = 15435 \<and>
   ramp_step 11025 2205 2205 (1 / 2) = 1 / 4410 \<and>
   \<bar>buffer_of (applyEnvelope [replicate 15434 1] 0 (dbl (25 / 100)) (dbl (5 / 100)) (1 / 2)
                 (dbl (5 / 100)) (dbl (35 / 100))) ! 13230
    - buffer_of (applyEnvelope [replicate 15434 1] 0 (dbl (25 / 100)) (dbl (5 / 100)) (1 / 2)
                   (dbl (5 / 100)) (dbl (35 / 100))) ! 13229\<bar> = 1 / 2205"
proof (intro conjI)
  show "\<lfloor>dbl (dbl (1 / 100) * SAMPLE_RATE)\<rfloor> = 441" by (rule stage_count_441)
  show "\<lfloor>dbl (dbl (5 / 100) * SAMPLE_RATE)\<rfloor> = 2205" by (rule stage_count_2205)
  show "ramp_step 441 0 441 (1 / 2) < 1 / 400" by (simp add: ramp_step_def)
  show "49 / 100 <
     \<bar>buffer_of (applyEnvelope [replicate 2205 1] 0 (dbl (1 / 100)) 0 (1 / 2) (dbl (1 / 100))
                   (dbl (5 / 100))) ! 441
      - buffer_of (applyEnvelope [replicate 2205 1] 0 (dbl (1 / 100)) 0 (1 / 2) (dbl (1 / 100))
                     (dbl (5 / 100))) ! 440\<bar>"
    by (simp add: buffer_of_applyEnvelope_nth stage_count_441 dbl_0 envelope_amp_def)
  show "dbl (dbl (dbl (25 / 100) + dbl (5 / 100)) + dbl (5 / 100)) \<le> dbl (35 / 100)"
    by (rule sum_fits_in_doubles)
  show "\<lfloor>dbl (dbl (35 / 100) * SAMPLE_RATE)\<rfloor> = 15434" by (rule stage_count_15434)
  show "\<lfloor>dbl (dbl (25 / 100) * SAMPLE_RATE)\<rfloor> + \<lfloor>dbl (dbl (5 / 100) * SAMPLE_RATE)\<rfloor>
     + \<lfloor>dbl (dbl (5 / 100) * SAMPLE_RATE)\<rfloor> = 15435"
    unfolding stage_count_11025 stage_count_2205 by simp
  show "ramp_step 11025 2205 2205 (1 / 2) = 1 / 4410" by (simp add: ramp_step_def)
  show "\<bar>buffer_of (applyEnvelope [replicate 15434 1] 0 (dbl (25 / 100)) (dbl (5 / 100)) (1 / 2)
                 (dbl (5 / 100)) (dbl (35 / 100))) ! 13230
    - buffer_of (applyEnvelope [replicate 15434 1] 0 (dbl (25 / 100)) (dbl (5 / 100)) (1 / 2)
                   (dbl (5 / 100)) (dbl (35 / 100))) ! 13229\<bar> = 1 / 2205"
    by (simp add: buffer_of_applyEnvelope_nth envelope_amp_def SAMPLE_RATE_def float_eval)
qed

section \<open>Which buffers an operation writes\<close>

lemma length_lowpass_loop: "length (lowpass_loop alpha prev xs) = length xs"
  by (induction xs arbitrary: prev) (simp_all add: Let_def)

lemma lowpass_result:
  "\<exists>out. lowpass h buffer cutoff sampleRate = (h @ [out], length h) \<and>
         length out = length (h ! buffer)"
  by (cases "h ! buffer") (simp_all add: lowpass_def alloc_def Let_def length_lowpass_loop)

lemma normalize_samples_result:
  "normalize_samples h buffer target = (h, buffer) \<and> peak_abs (h ! buffer) = 0 \<or>
   (\<exists>out. normalize_samples h buffer target = (h @ [out], length h) \<and>
          length out = length (h ! buffer)) \<and> peak_abs (h ! buffer) \<noteq> 0"
  by (simp add: normalize_samples_def alloc_def Let_def)

lemma length_foldl_update:
  "length (foldl (\<lambda>h c. h[c := f (h ! c)]) h cs) = length h"
  by (induction cs arbitrary: h) simp_all

lemma nth_foldl_update:
  "distinct cs \<Longrightarrow> p < length h \<Longrightarrow>
   foldl (\<lambda>h c. h[c := f (h ! c)]) h cs ! p = (if p \<in> set cs then f (h ! p) else h ! p)"
proof (induction cs arbitrary: h)
  case Nil
  show ?case by simp
next
  case (Cons c cs)
  have d: "distinct cs" "c \<notin> set cs" using Cons.prems(1) by simp_all
  have l: "p < length (h[c := f (h ! c)])" using Cons.prems(2) by simp
  show ?case
  proof (cases "p = c")
    case True
    then show ?thesis using Cons.IH [OF d(1) l] d(2) Cons.prems(2) by simp
  next
    case False
    then show ?thesis using Cons.IH [OF d(1) l] by simp
  qed
qed

lemma normalizeBuffer_quiet:
  "channels_peak h (channels buffer) \<le> 1 \<Longrightarrow> normalizeBuffer h buffer = h"
  by (simp add: normalizeBuffer_def Let_def)

lemma normalizeBuffer_in_place:
  assumes "1 < channels_peak h (channels buffer)" "distinct (channels buffer)"
  shows "length (normalizeBuffer h buffer) = length h"
    and "p < length h \<Longrightarrow> normalizeBuffer h buffer ! p =
           (if p \<in> set (channels buffer)
            then map (\<lambda>x. x * ((99 / 100) / channels_peak h (channels buffer))) (h ! p)
            else h ! p)"
  using assms by (simp_all add: normalizeBuffer_def Let_def length_foldl_update nth_foldl_update)

text \<open>
  C9 (as the code has it). \<^verbatim>\<open>lowpass\<close> and \<^verbatim>\<open>applyEnvelope\<close> return a newly allocated
  buffer of the input's length and leave every buffer of the store as it was. \<^verbatim>\<open>normalize\<close>
  leaves every buffer as it was too, and returns a new buffer unless the input's peak is 0,
  when it returns the input buffer itself. \<^verbatim>\<open>AudioMixer._normalizeBuffer\<close> allocates nothing:
  when the peak over the channels exceeds 1 it rescales every channel's own array in place
  (and no other array), and otherwise it changes nothing.
\<close>

theorem derived_buffers_frame:
  "(\<exists>out. lowpass h b cutoff sampleRate = (h @ [out], length h) \<and> length out = length (h ! b)) \<and>
   (\<exists>out. applyEnvelope h b attack decay sustain release duration = (h @ [out], length h) \<and>
          length out = length (h ! b)) \<and>
   (normalize_samples h b target = (h, b) \<and> peak_abs (h ! b) = 0 \<or>
    (\<exists>out. normalize_samples h b target = (h @ [out], length h) \<and> length out = length (h ! b)) \<and>
      peak_abs (h ! b) \<noteq> 0) \<and>
   (channels_peak h (channels buffer) \<le> 1 \<longrightarrow> normalizeBuffer h buffer = h) \<and>
   (1 < channels_peak h (channels buffer) \<and> distinct (channels buffer) \<longrightarrow>
      length (normalizeBuffer h buffer) = length h \<and>
      (\<forall>p < length h. normalizeBuffer h buffer ! p =
           (if p \<in> set (channels buffer)
            then map (\<lambda>x. x * ((99 / 100) / channels_peak h (channels buffer))) (h ! p)
            else h ! p)))"
proof (intro conjI)
  show "\<exists>out. lowpass h b cutoff sampleRate = (h @ [out], length h) \<and> length out = length (h ! b)"
    by (rule lowpass_result)
  show "\<exists>out. applyEnvelope h b attack decay sustain release duration = (h @ [out], length h) \<and>
          length out = length (h ! b)"
    by (simp add: applyEnvelope_result)
  show "normalize_samples h b target = (h, b) \<and> peak_abs (h ! b) = 0 \<or>
    (\<exists>out. normalize_samples h b target = (h @ [out], length h) \<and> length out = length (h ! b)) \<and>
      peak_abs (h ! b) \<noteq> 0"
    by (rule normalize_samples_result)
  show "channels_peak h (channels buffer) \<le> 1 \<longrightarrow> normalizeBuffer h buffer = h"
    by (simp add: normalizeBuffer_quiet)
  show "1 < channels_peak h (channels buffer) \<and> distinct (channels buffer) \<longrightarrow>
      length (normalizeBuffer h buffer) = length h \<and>
      (\<forall>p < length h. normalizeBuffer h buffer ! p =
           (if p \<in> set (channels buffer)
            then map (\<lambda>x. x * ((99 / 100) / channels_peak h (channels buffer))) (h ! p)
            else h ! p))"
    using normalizeBuffer_in_place [of h buffer] by blast
qed

theorem derived_buffers_frame_witness:
  "channels_peak [[4, -1], [1 / 2, 1], [3]] [0, 1] = 4 \<and>
   normalizeBuffer [[4, -1], [1 / 2, 1], [3]] \<lparr>sample_rate = 44100, frames = 2, channels = [0, 1]\<rparr> ! 2 = [3] \<and>
   normalizeBuffer [[4, -1], [1 / 2, 1], [3]] \<lparr>sample_rate = 44100, frames = 2, channels = [0, 1]\<rparr> ! 1
     = [1 / 2 * ((99 / 100) / 4), 1 * ((99 / 100) / 4)] \<and>
   normalizeBuffer [[1, -1]] \<lparr>sample_rate = 44100, frames = 2, channels = [0]\<rparr> = [[1, -1]]"
proof -
  let ?h = "[[4, -1], [1 / 2, 1], [3 :: real]]"
  let ?b = "\<lparr>sample_rate = 44100, frames = 2, channels = [0, 1]\<rparr>"
  have p: "channels_peak ?h (channels ?b) = 4" by (simp add: channels_peak_def)
  have d: "distinct (channels ?b)" by simp
  have "\<forall>p < length ?h. normalizeBuffer ?h ?b ! p =
           (if p \<in> set (channels ?b)
            then map (\<lambda>x. x * ((99 / 100) / channels_peak ?h (channels ?b))) (?h ! p)
            else ?h ! p)"
    using derived_buffers_frame [where h = ?h and buffer = ?b] p d by simp
  then have a: "normalizeBuffer ?h ?b ! 2 = [3]"
       and b: "normalizeBuffer ?h ?b ! 1 = [1 / 2 * ((99 / 100) / 4), 1 * ((99 / 100) / 4)]"
    using p by simp_all
  have q: "channels_peak [[1, -1]] (channels \<lparr>sample_rate = 44100, frames = 2, channels = [0]\<rparr>) \<le> 1"
    by (simp add: channels_peak_def)
  have c: "normalizeBuffer [[1, -1]] \<lparr>sample_rate = 44100, frames = 2, channels = [0]\<rparr> = [[1, -1]]"
    using derived_buffers_frame [where h = "[[1, -1]]"
        and buffer = "\<lparr>sample_rate = 44100, frames = 2, channels = [0]\<rparr>"] q by blast
  show ?thesis using a b c p by simp
qed

text \<open>
  C9 as stated fails: \<^verbatim>\<open>AudioMixer._normalizeBuffer\<close> overwrites the samples of the buffer
  it is given.
\<close>

theorem normalizeBuffer_mutates_in_place:
  "normalizeBuffer [[2, -1]] \<lparr>sample_rate = 44100, frames = 2, channels = [0]\<rparr>
     = [[99 / 100, - (99 / 200)]] \<and>
   normalizeBuffer [[2, -1]] \<lparr>sample_rate = 44100, frames = 2, channels = [0]\<rparr> \<noteq> [[2, -1]]"
  by (simp add: normalizeBuffer_def channels_peak_def)

section \<open>Avatar state transitions\<close>

lemma advance_particles_within:
  "n \<le> length ps \<Longrightarrow> advance_particles f n ps = Inr (map f (take n ps) @ drop n ps)"
proof (induction n arbitrary: ps)
  case 0
  show ?case by simp
next
  case (Suc n)
  then obtain p qs where ps: "ps = p # qs" by (cases ps) auto
  with Suc.prems have "n \<le> length qs" by simp
  then show ?case using Suc.IH [of qs] ps by simp
qed

lemma nth_advanced:
  "n \<le> length ps \<Longrightarrow> i < length ps \<Longrightarrow>
   (map f (take n ps) @ drop n ps) ! i = (if i < n then f (ps ! i) else ps ! i)"
  by (auto simp: nth_append min_def)

lemma length_new_avatar: "length (particles (new_avatar rnd)) = maxParticles"
  by (simp add: new_avatar_def initParticles_def)

text \<open>
  The constructor creates \<open>maxParticles\<close> particles, and neither \<^verbatim>\<open>setState\<close> nor
  \<^verbatim>\<open>update\<close> changes their number.
\<close>

lemma particles_setState: "particles (snd (setState a s)) = particles a"
  by (simp add: setState_def split: option.splits)

lemma length_advance_particles:
  "advance_particles f n ps = Inr ps' \<Longrightarrow> length ps' = length ps"
proof (induction f n ps arbitrary: ps' rule: advance_particles.induct)
  case (1 f ps)
  then show ?case by simp
next
  case (2 f n)
  then show ?case by simp
next
  case (3 f n p ps)
  then show ?case by (auto split: sum.splits)
qed

lemma length_particles_update:
  assumes "update a deltaTime r_wave r_spike = Inr a'"
  shows "length (particles a') = length (particles a)"
proof (cases "stateConfig a")
  case (Config c)
  then show ?thesis
    using assms
    by (auto simp: update_def Let_def split: sum.splits if_splits dest: length_advance_particles)
next
  case (Inherited name)
  then show ?thesis
    using assms by (auto simp: update_def Let_def split: if_splits)
qed

lemma maxParticles_value: "maxParticles = 35"
  by (simp add: maxParticles_def idle_def talking_def executing_def)

lemma states_valid:
  "s \<in> {''idle'', ''talking'', ''executing''} \<Longrightarrow>
   \<exists>c. states s = Some (Config c) \<and> particleCount c \<le> maxParticles \<and> pulseDuration c \<noteq> 0 \<and>
       particleCount c = (if s = ''idle'' then 12 else if s = ''talking'' then 20 else 35)"
  by (auto simp: states_def maxParticles_value idle_def talking_def executing_def)

lemma update_particles_of_config:
  assumes "stateConfig a = Config c" "particleCount c \<le> length (particles a)"
  shows "\<exists>a''. update a deltaTime r_wave r_spike = Inr a'' \<and>
           particles a'' =
             map (advance c (a\<lparr>time := time a + deltaTime\<rparr>)) (take (particleCount c) (particles a))
               @ drop (particleCount c) (particles a) \<and>
           pulsePhase a'' =
             num_add (pulsePhase a)
               (num_mul (num_mul (num_div (Num deltaTime) (Num (pulseDuration c))) (Num pi)) (Num 2))"
proof -
  have adv: "advance c (a\<lparr>time := time a + deltaTime, rotationAngle := x, pulsePhase := y\<rparr>)
      = advance c (a\<lparr>time := time a + deltaTime\<rparr>)" for x y
    by (rule ext) (simp add: advance_def)
  show ?thesis
    using assms
    by (simp add: update_def Let_def advance_particles_within config_num_def adv)
qed

text \<open>
  C6. For every state \<open>s\<close> of idle, talking and executing, on an avatar holding the
  particles that \<^verbatim>\<open>initParticles\<close> made: \<^verbatim>\<open>setState(s)\<close> warns of nothing, after it
  \<^verbatim>\<open>getState()\<close> returns \<open>s\<close> and the pulse phase is 0, and the next \<^verbatim>\<open>update\<close> succeeds,
  advances exactly the first \<^verbatim>\<open>particleCount\<close> particles of the configuration of \<open>s\<close>
  (12, 20 or 35) with that configuration's speed, leaves the other particles as they were,
  and takes the pulse phase from 0 to the first step of the new pulse period.
\<close>

theorem setState_then_update:
  assumes "s \<in> {''idle'', ''talking'', ''executing''}"
      and "length (particles a) = maxParticles"
  shows "\<exists>c a'. states s = Some (Config c) \<and>
           particleCount c = (if s = ''idle'' then 12 else if s = ''talking'' then 20 else 35) \<and>
           setState a s = ([], a') \<and> getState a' = s \<and> pulsePhase a' = Num 0 \<and>
           (\<exists>a''. update a' deltaTime r_wave r_spike = Inr a'' \<and>
              length (particles a'') = length (particles a) \<and>
              (\<forall>i < length (particles a).
                 particles a'' ! i =
                   (if i < particleCount c
                    then (particles a ! i)
                           \<lparr>angle := angle (particles a ! i) + speed (particles a ! i) * particleSpeed c,
                            distance := num_mul (radius a)
                               (Num (11 / 10 + sin ((time a + deltaTime) * (1 / 1000)
                                                      + phase (particles a ! i)) * (15 / 100)))\<rparr>
                    else particles a ! i)) \<and>
              pulsePhase a'' = Num (deltaTime / pulseDuration c * pi * 2))"
proof -
  from states_valid [OF assms(1)] obtain c where
    c: "states s = Some (Config c)" "particleCount c \<le> maxParticles" "pulseDuration c \<noteq> 0"
       "particleCount c = (if s = ''idle'' then 12 else if s = ''talking'' then 20 else 35)"
    by blast
  define a' where "a' = a\<lparr>currentState := s, stateConfig := Config c, pulsePhase := Num 0\<rparr>"
  have set: "setState a s = ([], a')" using c(1) by (simp add: setState_def a'_def)
  have cfg: "stateConfig a' = Config c" by (simp add: a'_def)
  have n: "particleCount c \<le> length (particles a')" using c(2) assms(2) by (simp add: a'_def)
  from update_particles_of_config [OF cfg n, of deltaTime r_wave r_spike]
  obtain a'' where
    u: "update a' deltaTime r_wave r_spike = Inr a''"
       "particles a'' =
          map (advance c (a'\<lparr>time := time a' + deltaTime\<rparr>)) (take (particleCount c) (particles a'))
            @ drop (particleCount c) (particles a')"
       "pulsePhase a'' =
          num_add (pulsePhase a')
            (num_mul (num_mul (num_div (Num deltaTime) (Num (pulseDuration c))) (Num pi)) (Num 2))"
    by blast
  have len: "length (particles a'') = length (particles a)"
    using u(2) n by (simp add: a'_def)
  have nth: "particles a'' ! i =
      (if i < particleCount c
       then (particles a ! i)
              \<lparr>angle := angle (particles a ! i) + speed (particles a ! i) * particleSpeed c,
               distance := num_mul (radius a)
                  (Num (11 / 10 + sin ((time a + deltaTime) * (1 / 1000)
                                         + phase (particles a ! i)) * (15 / 100)))\<rparr>
       else particles a ! i)" if "i < length (particles a)" for i
  proof -
    have "particles a'' ! i =
        (if i < particleCount c then advance c (a'\<lparr>time := time a' + deltaTime\<rparr>) (particles a' ! i)
         else particles a' ! i)"
      unfolding u(2) using n that by (intro nth_advanced) (simp_all add: a'_def)
    then show ?thesis by (simp add: advance_def a'_def)
  qed
  have ph: "pulsePhase a'' = Num (deltaTime / pulseDuration c * pi * 2)"
    using u(3) c(3) by (simp add: a'_def)
  show ?thesis
    using c(1,4) set len nth ph u(1) by (auto simp: getState_def a'_def)
qed

theorem setState_then_update_witness:
  "getState (snd (setState sample_avatar ''executing'')) = ''executing'' \<and>
   pulsePhase (snd (setState sample_avatar ''executing'')) = Num 0 \<and>
   (\<exists>a''. update (snd (setState sample_avatar ''executing'')) 16 (1 / 2) (1 / 2) = Inr a'' \<and>
         length (particles a'') = 35 \<and> pulsePhase a'' = Num (16 / 900 * pi * 2))"
proof -
  have s: "''executing'' \<in> {''idle'', ''talking'', ''executing''}" by simp
  have n: "length (particles sample_avatar) = maxParticles"
    by (simp add: sample_avatar_def length_new_avatar)
  have e: "states ''executing'' = Some (Config executing)" by (simp add: states_def)
  from setState_then_update [OF s n, of 16 "1 / 2" "1 / 2"] show ?thesis
    using n by (auto simp: e maxParticles_value executing_def)
qed

text \<open>
  C7 (as the code has it). \<^verbatim>\<open>setState\<close> raises no error. With a name for which the table
  \<^verbatim>\<open>this.states\<close> has no value it writes the warning \<^verbatim>\<open>Unknown state: name\<close> and returns,
  the avatar being as before; with idle, talking or executing it always succeeds: no
  warning, the state and its configuration set, the pulse phase 0.
\<close>

theorem setState_known_or_ignored:
  "(states name = None \<longrightarrow> setState a name = ([''Unknown state: '' @ name], a)) \<and>
   (name \<in> {''idle'', ''talking'', ''executing''} \<longrightarrow>
      (\<exists>c. states name = Some (Config c) \<and>
           setState a name =
             ([], a\<lparr>currentState := name, stateConfig := Config c, pulsePhase := Num 0\<rparr>)))"
  by (auto simp: setState_def states_def)

theorem setState_known_or_ignored_witness:
  "setState sample_avatar ''dancing'' = ([''Unknown state: dancing''], sample_avatar) \<and>
   setState sample_avatar ''talking''
     = ([], sample_avatar\<lparr>currentState := ''talking'', stateConfig := Config talking,
                            pulsePhase := Num 0\<rparr>)"
proof -
  have d: "states ''dancing'' = None" by (simp add: states_def object_prototype_keys_def)
  have t: "states ''talking'' = Some (Config talking)" by (simp add: states_def)
  show ?thesis
    using setState_known_or_ignored [of "''dancing''" sample_avatar]
      setState_known_or_ignored [of "''talking''" sample_avatar] d t
    by simp
qed

text \<open>
  C7 as stated fails: \<^verbatim>\<open>setState('flying')\<close> does not fail with an error. It returns as
  every call does, having written a warning to the console.
\<close>

theorem setState_unknown_name_returns:
  "setState (sample_avatar) ''flying'' = ([''Unknown state: flying''], sample_avatar)"
  by (simp add: setState_def states_def object_prototype_keys_def)

text \<open>
  C10. \<^verbatim>\<open>setState\<close> with a name that is no state should leave the avatar unchanged. The
  guard \<^verbatim>\<open>!this.states[state]\<close> lets the names of inherited properties through:
  \<^verbatim>\<open>setState('toString')\<close> on an avatar in state idle with pulse phase 1 sets the state to
  \<^verbatim>\<open>toString\<close>, the configuration to the inherited function and the pulse phase to 0,
  without a warning.
\<close>

theorem setState_inherited_name_accepted:
  "setState ((sample_avatar)\<lparr>pulsePhase := Num 1\<rparr>) ''toString''
     = ([], (sample_avatar)\<lparr>currentState := ''toString'',
                                   stateConfig := Inherited ''toString'', pulsePhase := Num 0\<rparr>) \<and>
   getState (sample_avatar) = ''idle''"
  by (simp add: setState_def states_def object_prototype_keys_def getState_def sample_avatar_def
      new_avatar_def initParticles_def)

section \<open>Caption word reveal\<close>

lemma split_space_nonempty: "split_space s \<noteq> []"
  by (induction s) (auto split: list.splits)

lemma length_split_space_pos: "0 < length (split_space s)"
  using split_space_nonempty [of s] by simp

lemma length_slice0_nonneg: "0 \<le> e \<Longrightarrow> length (slice0 xs e) = min (nat e) (length xs)"
proof -
  assume e: "0 \<le> e"
  have "nat (min e (int (length xs))) = min (nat e) (length xs)" using e by linarith
  then show ?thesis using e by (simp add: slice0_def min.commute)
qed

lemma slice0_all: "int (length xs) \<le> e \<Longrightarrow> slice0 xs e = xs"
  by (simp add: slice0_def)

lemma wordsPerFrame_nonneg:
  assumes "0 < T"
  shows "0 \<le> dbl (real n / T)"
  using assms by (intro dbl_nonneg) simp

lemma frame_floor_nonneg:
  assumes "0 < T"
  shows "0 \<le> \<lfloor>dbl (real f * dbl (real n / T))\<rfloor>"
proof -
  have "0 \<le> real f * dbl (real n / T)"
    using wordsPerFrame_nonneg [OF assms, of n] by simp
  then have "0 \<le> dbl (real f * dbl (real n / T))" by (rule dbl_nonneg)
  then show ?thesis by simp
qed

lemma frame_floor_mono:
  assumes "0 < T" "f1 \<le> f2"
  shows "\<lfloor>dbl (real f1 * dbl (real n / T))\<rfloor> \<le> \<lfloor>dbl (real f2 * dbl (real n / T))\<rfloor>"
proof (intro floor_mono dbl_mono)
  have "real f1 \<le> real f2" using assms(2) by simp
  then show "real f1 * dbl (real n / T) \<le> real f2 * dbl (real n / T)"
    using wordsPerFrame_nonneg [OF assms(1), of n] by (rule mult_right_mono)
qed

text \<open>
  From frame \<open>T\<close> on the rounded product is at least \<open>n - 1\<close>: the quotient \<open>n / T\<close> loses
  at most one part in \<open>2 ^ 53\<close> by rounding, and whole numbers below \<open>2 ^ 53\<close> are doubles.
\<close>

lemma frame_floor_full:
  assumes T: "0 < T" "T \<le> 2 ^ 53" and f: "T \<le> real f" and n: "0 < n" "n \<le> 2 ^ 53"
  shows "int n - 1 \<le> \<lfloor>dbl (real f * dbl (real n / T))\<rfloor>"
proof -
  define q where "q = real n / T"
  have q: "0 < q" using T(1) n(1) by (simp add: q_def)
  have "1 / 2 ^ 53 \<le> 1 / T" using T by (intro divide_left_mono) simp_all
  also have "1 / T \<le> q" using T(1) n(1) by (simp add: q_def divide_right_mono)
  finally have lo: "1 / 2 ^ 53 \<le> q" .
  have "pow2 (- 1022) \<le> pow2 (- int 53)" by (rule pow2_mono) simp
  also have "pow2 (- int 53) = 1 / 2 ^ 53" by (rule pow2_neg_nat)
  finally have "pow2 (- 1022) \<le> \<bar>q\<bar>" using lo q by simp
  then have "\<bar>dbl q - q\<bar> \<le> \<bar>q\<bar> / 2 ^ 53" by (rule dbl_rel_error)
  moreover have "\<bar>q\<bar> = q" using q by simp
  moreover have "q - dbl q \<le> \<bar>dbl q - q\<bar>" by linarith
  ultimately have w: "q - q / 2 ^ 53 \<le> dbl q" by linarith
  have fq: "real n \<le> real f * q"
  proof -
    have "1 \<le> real f / T" using T(1) f by (simp add: field_simps)
    then have "real n * 1 \<le> real n * (real f / T)" by (intro mult_left_mono) simp_all
    then show ?thesis by (simp add: q_def field_simps)
  qed
  have "real n - 1 \<le> real n * (1 - 1 / 2 ^ 53)"
  proof -
    have "real n \<le> 2 ^ 53" using n(2) by (metis of_nat_le_iff of_nat_numeral of_nat_power)
    then have "real n / 2 ^ 53 \<le> 1" by simp
    then show ?thesis by (simp add: algebra_simps)
  qed
  also have "\<dots> \<le> (real f * q) * (1 - 1 / 2 ^ 53)" using fq by (intro mult_right_mono) simp_all
  also have "\<dots> = real f * (q - q / 2 ^ 53)" by (simp add: algebra_simps)
  also have "\<dots> \<le> real f * dbl q" using w by (intro mult_left_mono) simp_all
  finally have "real (n - 1) \<le> real f * dbl q" using n(1) by (simp add: of_nat_diff)
  then have "dbl (real (n - 1)) \<le> dbl (real f * dbl q)" by (rule dbl_mono)
  moreover have "dbl (real (n - 1)) = real (n - 1)" using n by (intro dbl_of_nat) simp
  ultimately have "real (n - 1) \<le> dbl (real f * dbl q)" by simp
  then have "int (n - 1) \<le> \<lfloor>dbl (real f * dbl q)\<rfloor>" by (simp add: le_floor_iff)
  then show ?thesis using n(1) by (simp add: q_def of_nat_diff)
qed

lemma visibleWordCount_nonneg: "0 < T \<Longrightarrow> 0 \<le> visibleWordCount caption f T"
  using frame_floor_nonneg [of T f "length (split_space caption)"]
  by (simp add: visibleWordCount_def Let_def)

lemma length_visibleWords:
  assumes "0 < T"
  shows "length (visibleWords caption f T)
           = min (nat \<lfloor>dbl (real f * dbl (real (length (split_space caption)) / T))\<rfloor> + 3)
                 (length (split_space caption))"
proof -
  let ?n = "length (split_space caption)"
  have k: "0 \<le> \<lfloor>dbl (real f * dbl (real ?n / T))\<rfloor>" using assms by (rule frame_floor_nonneg)
  have "length (visibleWords caption f T) = min (nat (visibleWordCount caption f T)) ?n"
    unfolding visibleWords_def using visibleWordCount_nonneg [OF assms]
    by (rule length_slice0_nonneg)
  also have "nat (visibleWordCount caption f T)
      = min (nat \<lfloor>dbl (real f * dbl (real ?n / T))\<rfloor> + 3) ?n"
    unfolding visibleWordCount_def Let_def using k by arith
  finally show ?thesis by simp
qed

lemma visibleWords_mono:
  assumes "0 < T" "f1 \<le> f2"
  shows "length (visibleWords caption f1 T) \<le> length (visibleWords caption f2 T)"
proof -
  let ?n = "length (split_space caption)"
  have m: "\<lfloor>dbl (real f1 * dbl (real ?n / T))\<rfloor> \<le> \<lfloor>dbl (real f2 * dbl (real ?n / T))\<rfloor>"
    using assms by (rule frame_floor_mono)
  have "visibleWordCount caption f1 T \<le> visibleWordCount caption f2 T"
    using m by (simp add: visibleWordCount_def Let_def min_def)
  then have "nat (visibleWordCount caption f1 T) \<le> nat (visibleWordCount caption f2 T)" by simp
  then show ?thesis
    unfolding visibleWords_def
    using visibleWordCount_nonneg [OF assms(1), of caption f1]
      visibleWordCount_nonneg [OF assms(1), of caption f2]
    by (simp add: length_slice0_nonneg min_def)
qed

lemma visibleWords_full:
  assumes "0 < T" "T \<le> 2 ^ 53" "T \<le> real f" "length (split_space caption) \<le> 2 ^ 53"
  shows "visibleWords caption f T = split_space caption"
proof -
  let ?n = "length (split_space caption)"
  have "int ?n - 1 \<le> \<lfloor>dbl (real f * dbl (real ?n / T))\<rfloor>"
    using assms(1-3) length_split_space_pos assms(4) by (rule frame_floor_full)
  then have "visibleWordCount caption f T = int ?n"
    by (simp add: visibleWordCount_def Let_def min_def)
  then show ?thesis by (simp add: visibleWords_def slice0_all)
qed

lemma visibleWords_first_frame: "0 < T \<Longrightarrow> 0 < length (visibleWords caption 0 T)"
  using length_split_space_pos [of caption] by (simp add: length_visibleWords dbl_0)

lemma typewriter_floor_nonneg:
  assumes "0 < textSpeed" "0 \<le> e"
  shows "0 \<le> \<lfloor>dbl (e / textSpeed)\<rfloor>"
proof -
  have "0 \<le> dbl (e / textSpeed)" using assms by (intro dbl_nonneg) simp
  then show ?thesis by simp
qed

lemma length_wordsToShow:
  assumes "0 < textSpeed" "0 \<le> e"
  shows "length (wordsToShow caption textSpeed e)
           = min (nat \<lfloor>dbl (e / textSpeed)\<rfloor>) (length (split_space caption))"
  unfolding wordsToShow_def using typewriter_floor_nonneg [OF assms]
  by (rule length_slice0_nonneg)

lemma wordsToShow_mono:
  assumes "0 < textSpeed" "0 \<le> e1" "e1 \<le> e2"
  shows "length (wordsToShow caption textSpeed e1) \<le> length (wordsToShow caption textSpeed e2)"
proof -
  have "e1 / textSpeed \<le> e2 / textSpeed" using assms by (simp add: divide_right_mono)
  then have "\<lfloor>dbl (e1 / textSpeed)\<rfloor> \<le> \<lfloor>dbl (e2 / textSpeed)\<rfloor>"
    by (intro floor_mono dbl_mono)
  then have "nat \<lfloor>dbl (e1 / textSpeed)\<rfloor> \<le> nat \<lfloor>dbl (e2 / textSpeed)\<rfloor>" by simp
  then show ?thesis using assms by (simp add: length_wordsToShow min_def)
qed

text \<open>After \<open>k\<close> times the text speed the quotient is at least \<open>k\<close>, rounded or not.\<close>

lemma typewriter_floor_ge:
  assumes "0 < textSpeed" "textSpeed * real k \<le> e" "k < 2 ^ 53"
  shows "int k \<le> \<lfloor>dbl (e / textSpeed)\<rfloor>"
proof -
  have "real k \<le> e / textSpeed" using assms(1,2) by (simp add: field_simps)
  then have "dbl (real k) \<le> dbl (e / textSpeed)" by (rule dbl_mono)
  then have "real k \<le> dbl (e / textSpeed)" using assms(3) by (simp add: dbl_of_nat)
  then show ?thesis by (simp add: le_floor_iff)
qed

lemma wordsToShow_at_least:
  assumes "0 < textSpeed" "textSpeed * real k \<le> e" "k < 2 ^ 53"
  shows "min k (length (split_space caption)) \<le> length (wordsToShow caption textSpeed e)"
proof -
  have "0 \<le> textSpeed * real k" using assms(1) by simp
  then have e: "0 \<le> e" using assms(2) by linarith
  have "int k \<le> \<lfloor>dbl (e / textSpeed)\<rfloor>" using assms by (rule typewriter_floor_ge)
  then have "k \<le> nat \<lfloor>dbl (e / textSpeed)\<rfloor>" by linarith
  then show ?thesis using assms(1) e by (simp add: length_wordsToShow min_def)
qed

lemma wordsToShow_full:
  assumes "0 < textSpeed" "textSpeed * real (length (split_space caption)) \<le> e"
    "length (split_space caption) < 2 ^ 53"
  shows "wordsToShow caption textSpeed e = split_space caption"
proof -
  have "int (length (split_space caption)) \<le> \<lfloor>dbl (e / textSpeed)\<rfloor>"
    using assms by (rule typewriter_floor_ge)
  then show ?thesis by (simp add: wordsToShow_def slice0_all)
qed

text \<open>
  C2 (as the code has it). In the batch renderer, for a caption of \<open>n\<close> words at frame
  \<open>f\<close> of \<open>T > 0\<close> frames, the number of visible words is \<open>\<lfloor>f \<times> (n / T)\<rfloor> + 3\<close>
  capped at \<open>n\<close>, the quotient and the product being doubles: at least one word at frame
  0, never fewer words at a later frame, and all words once \<open>f \<ge> T\<close> (for up to \<open>2 ^ 53\<close>
  frames and words). In \<^verbatim>\<open>VideoRenderer\<close>'s typewriter mode the pace is a fixed number of
  milliseconds per word, \<^verbatim>\<open>textSpeed\<close>, which does not depend on the duration: never
  fewer words at a later time, at least \<open>k\<close> of the words once \<open>k \<times> textSpeed\<close> milliseconds
  have elapsed, and so all \<open>n\<close> words once \<open>elapsed \<ge> textSpeed \<times> n\<close>.
\<close>

theorem caption_word_reveal:
  "(0 < T \<longrightarrow>
      length (visibleWords caption frameNum T)
        = min (nat \<lfloor>dbl (real frameNum * dbl (real (length (split_space caption)) / T))\<rfloor> + 3)
              (length (split_space caption)) \<and>
      0 < length (visibleWords caption 0 T) \<and>
      (frameNum \<le> frameNum' \<longrightarrow>
         length (visibleWords caption frameNum T)
           \<le> length (visibleWords caption frameNum' T)) \<and>
      (T \<le> real frameNum \<and> T \<le> 2 ^ 53 \<and> length (split_space caption) \<le> 2 ^ 53 \<longrightarrow>
         visibleWords caption frameNum T = split_space caption)) \<and>
   (0 < textSpeed \<and> 0 \<le> elapsedTime \<longrightarrow>
      (elapsedTime \<le> elapsedTime' \<longrightarrow>
         length (wordsToShow caption textSpeed elapsedTime)
           \<le> length (wordsToShow caption textSpeed elapsedTime')) \<and>
      (k < 2 ^ 53 \<and> textSpeed * real k \<le> elapsedTime \<longrightarrow>
         min k (length (split_space caption))
           \<le> length (wordsToShow caption textSpeed elapsedTime)) \<and>
      (length (split_space caption) < 2 ^ 53 \<and>
       textSpeed * real (length (split_space caption)) \<le> elapsedTime \<longrightarrow>
         wordsToShow caption textSpeed elapsedTime = split_space caption))"
proof (intro conjI impI)
  assume t: "0 < T"
  show "length (visibleWords caption frameNum T)
        = min (nat \<lfloor>dbl (real frameNum * dbl (real (length (split_space caption)) / T))\<rfloor> + 3)
              (length (split_space caption))"
    using t by (rule length_visibleWords)
  show "0 < length (visibleWords caption 0 T)"
    using t by (rule visibleWords_first_frame)
  show "length (visibleWords caption frameNum T)
           \<le> length (visibleWords caption frameNum' T)" if "frameNum \<le> frameNum'"
    using t that by (rule visibleWords_mono)
  show "visibleWords caption frameNum T = split_space caption"
    if "T \<le> real frameNum \<and> T \<le> 2 ^ 53 \<and> length (split_space caption) \<le> 2 ^ 53"
    using t that by (intro visibleWords_full) simp_all
next
  assume a: "0 < textSpeed \<and> 0 \<le> elapsedTime"
  show "length (wordsToShow caption textSpeed elapsedTime)
           \<le> length (wordsToShow caption textSpeed elapsedTime')" if "elapsedTime \<le> elapsedTime'"
    using a that by (intro wordsToShow_mono) simp_all
  show "min k (length (split_space caption))
           \<le> length (wordsToShow caption textSpeed elapsedTime)"
    if "k < 2 ^ 53 \<and> textSpeed * real k \<le> elapsedTime"
    using a that by (intro wordsToShow_at_least) simp_all
  show "wordsToShow caption textSpeed elapsedTime = split_space caption"
    if "length (split_space caption) < 2 ^ 53 \<and>
       textSpeed * real (length (split_space caption)) \<le> elapsedTime"
    using a that by (intro wordsToShow_full) simp_all
qed

theorem caption_word_reveal_witness:
  "length (visibleWords ''a b c d e f'' 0 30) = 3 \<and>
   length (visibleWords ''a b c d e f'' 10 30) = 5 \<and>
   visibleWords ''a b c d e f'' 30 30 = split_space ''a b c d e f'' \<and>
   length (visibleWords ''a b c d e f g h i j k l m n o p q r s t u v w x y z'' 45 90) = 15 \<and>
   2 \<le> length (wordsToShow ''a b c d e f'' 50 120) \<and>
   wordsToShow ''a b c d e f'' 50 300 = split_space ''a b c d e f''"
proof -
  let ?c = "''a b c d e f''"
  let ?z = "''a b c d e f g h i j k l m n o p q r s t u v w x y z''"
  have n: "length (split_space ?c) = 6" by simp
  have m: "length (split_space ?z) = 26" by simp
  have p: "0 < (30 :: real)" "0 < (90 :: real)" by simp_all
  note b0 = mp [OF caption_word_reveal
      [where caption = ?c and T = 30 and frameNum = 0, THEN conjunct1] p(1)]
  note b10 = mp [OF caption_word_reveal
      [where caption = ?c and T = 30 and frameNum = 10, THEN conjunct1] p(1)]
  note b30 = mp [OF caption_word_reveal
      [where caption = ?c and T = 30 and frameNum = 30, THEN conjunct1] p(1)]
  note z45 = mp [OF caption_word_reveal
      [where caption = ?z and T = 90 and frameNum = 45, THEN conjunct1] p(2)]
  have e0: "\<lfloor>dbl (real 0 * dbl (real 6 / 30))\<rfloor> = 0" by (simp add: float_eval)
  have e10: "\<lfloor>dbl (real 10 * dbl (real 6 / 30))\<rfloor> = 2" by (simp add: float_eval)
  have e45: "\<lfloor>dbl (real 45 * dbl (real 26 / 90))\<rfloor> = 12" by (simp add: float_eval)
  have a0: "length (visibleWords ?c 0 30) = 3"
    unfolding b0 [THEN conjunct1] n e0 by simp
  have a10: "length (visibleWords ?c 10 30) = 5"
    unfolding b10 [THEN conjunct1] n e10 by simp
  have a45: "length (visibleWords ?z 45 90) = 15"
    unfolding z45 [THEN conjunct1] m e45 by simp
  have f: "30 \<le> real 30 \<and> (30 :: real) \<le> 2 ^ 53 \<and> length (split_space ?c) \<le> 2 ^ 53"
    unfolding n by simp
  have a30: "visibleWords ?c 30 30 = split_space ?c"
    by (rule mp [OF b30 [THEN conjunct2, THEN conjunct2, THEN conjunct2] f])
  have q: "0 < (50 :: real) \<and> 0 \<le> (120 :: real)" "0 < (50 :: real) \<and> 0 \<le> (300 :: real)"
    by simp_all
  note v = mp [OF caption_word_reveal
      [where caption = ?c and textSpeed = 50 and elapsedTime = 120 and k = 2, THEN conjunct2] q(1)]
  note w = mp [OF caption_word_reveal
      [where caption = ?c and textSpeed = 50 and elapsedTime = 300, THEN conjunct2] q(2)]
  have k: "(2 :: nat) < 2 ^ 53 \<and> 50 * real 2 \<le> 120" by simp
  have "min 2 (length (split_space ?c)) \<le> length (wordsToShow ?c 50 120)"
    by (rule mp [OF v [THEN conjunct2, THEN conjunct1] k])
  then have t120: "2 \<le> length (wordsToShow ?c 50 120)" unfolding n by simp
  have g: "length (split_space ?c) < 2 ^ 53 \<and> 50 * real (length (split_space ?c)) \<le> 300"
    unfolding n by simp
  have t300: "wordsToShow ?c 50 300 = split_space ?c"
    by (rule mp [OF w [THEN conjunct2, THEN conjunct2] g])
  show ?thesis using a0 a10 a30 a45 t120 t300 by (intro conjI)
qed

text \<open>
  C2 as stated fails in \<^verbatim>\<open>VideoRenderer.drawCaption\<close>, whose pace is the text speed, 50 ms
  per word unless the caller sets another, and not the duration over the word count. In a
  clip of 120 ms with a caption of six words, the claim has \<open>\<lfloor>100 / (120 / 6)\<rfloor> = 5\<close> words
  and a lead-in visible after 100 ms; the renderer shows two.
\<close>

theorem typewriter_pace_ignores_duration:
  "length (split_space ''a b c d e f'') = 6 \<and>
   \<lfloor>100 / (120 / 6 :: real)\<rfloor> = 5 \<and>
   length (wordsToShow ''a b c d e f'' (textSpeed_of None) 100) = 2 \<and>
   textToShow ''a b c d e f'' ''typewriter'' (textSpeed_of None) 100 = ''a b''"
proof -
  have e: "\<lfloor>dbl (100 / 50)\<rfloor> = 2" by (simp add: float_eval)
  have w: "wordsToShow ''a b c d e f'' (textSpeed_of None) 100 = [''a'', ''b'']"
    unfolding wordsToShow_def textSpeed_of_def option.case e by (simp add: slice0_def)
  show ?thesis unfolding textToShow_def w by simp
qed

section \<open>The bytes of an exported WAV file\<close>

lemma length_le_bytes [simp]: "length (le_bytes k v) = k"
  by (simp add: le_bytes_def)

lemma length_char_codes [simp]: "length (char_codes s) = length s"
  by (simp add: char_codes_def)

lemma put_at_end:
  "length pre = off \<Longrightarrow> length bs \<le> k \<Longrightarrow>
   put (pre @ replicate k 0) off bs = (pre @ bs) @ replicate (k - length bs) 0"
  by (simp add: put_def)

lemma buffer_write_at_end:
  "length pre = off \<Longrightarrow> length str \<le> k \<Longrightarrow>
   buffer_write str off (Inr (pre @ replicate k 0))
     = Inr ((pre @ char_codes str) @ replicate (k - length str) 0)"
  by (simp add: buffer_write_def put_at_end)

lemma writeUInt32LE_at_end:
  "length pre = off \<Longrightarrow> 4 \<le> k \<Longrightarrow> 0 \<le> v \<Longrightarrow> v \<le> 4294967295 \<Longrightarrow>
   writeUInt32LE v off (Inr (pre @ replicate k 0))
     = Inr ((pre @ le_bytes 4 v) @ replicate (k - 4) 0)"
  by (simp add: writeUInt32LE_def put_at_end)

lemma writeUInt16LE_at_end:
  "length pre = off \<Longrightarrow> 2 \<le> k \<Longrightarrow> 0 \<le> v \<Longrightarrow> v \<le> 65535 \<Longrightarrow>
   writeUInt16LE v off (Inr (pre @ replicate k 0))
     = Inr ((pre @ le_bytes 2 v) @ replicate (k - 2) 0)"
  by (simp add: writeUInt16LE_def put_at_end)

lemma writeInt16LE_at_end:
  "length pre = off \<Longrightarrow> 2 \<le> k \<Longrightarrow> - 32768 \<le> v \<Longrightarrow> v \<le> 32767 \<Longrightarrow>
   writeInt16LE v off (Inr (pre @ replicate k 0))
     = Inr ((pre @ le_bytes 2 v) @ replicate (k - 2) 0)"
  by (simp add: writeInt16LE_def put_at_end)

lemma wav_sample_range: "- 32768 \<le> wav_sample v" "wav_sample v \<le> 32767"
  by (cases v; simp add: wav_sample_def)+

lemma length_concat_frames: "length (concat (map (wav_frame l r) [0..<i])) = 4 * i"
  by (induction i) (simp_all add: wav_frame_def)

lemma wav_step_at_end:
  assumes "length pre = 44 + i * 4" "4 \<le> k"
  shows "wav_step l r (Inr (pre @ replicate k 0)) i
           = Inr ((pre @ wav_frame l r i) @ replicate (k - 4) 0)"
proof -
  have k: "2 \<le> k" "2 \<le> k - 2" using assms(2) by simp_all
  have w1: "writeInt16LE (wav_sample (element l i)) (44 + i * 4) (Inr (pre @ replicate k 0))
      = Inr ((pre @ le_bytes 2 (wav_sample (element l i))) @ replicate (k - 2) 0)"
    using assms(1) k(1) wav_sample_range by (rule writeInt16LE_at_end)
  have len2: "length (pre @ le_bytes 2 (wav_sample (element l i))) = 44 + i * 4 + 2"
    using assms(1) by simp
  have w2: "writeInt16LE (wav_sample (element r i)) (44 + i * 4 + 2)
        (Inr ((pre @ le_bytes 2 (wav_sample (element l i))) @ replicate (k - 2) 0))
      = Inr (((pre @ le_bytes 2 (wav_sample (element l i))) @ le_bytes 2 (wav_sample (element r i)))
             @ replicate (k - 2 - 2) 0)"
    using len2 k(2) wav_sample_range by (rule writeInt16LE_at_end)
  have "wav_step l r (Inr (pre @ replicate k 0)) i
      = Inr (((pre @ le_bytes 2 (wav_sample (element l i))) @ le_bytes 2 (wav_sample (element r i)))
             @ replicate (k - 2 - 2) 0)"
    unfolding wav_step_def Let_def w1 w2 ..
  also have "k - 2 - 2 = k - 4" by simp
  finally show ?thesis by (simp add: wav_frame_def)
qed

lemma writeWav_loop:
  assumes "length H = 44" "i \<le> n"
  shows "foldl (wav_step l r) (Inr (H @ replicate (4 * n) 0)) [0..<i]
         = Inr ((H @ concat (map (wav_frame l r) [0..<i])) @ replicate (4 * (n - i)) 0)"
  using assms(2)
proof (induction i)
  case 0
  show ?case by simp
next
  case (Suc i)
  let ?pre = "H @ concat (map (wav_frame l r) [0..<i])"
  have len: "length ?pre = 44 + i * 4" using assms(1) by (simp add: length_concat_frames)
  have k: "4 \<le> 4 * (n - i)" using Suc.prems by simp
  have r: "4 * (n - i) - 4 = 4 * (n - Suc i)" using Suc.prems by simp
  have ih: "foldl (wav_step l r) (Inr (H @ replicate (4 * n) 0)) [0..<i]
      = Inr (?pre @ replicate (4 * (n - i)) 0)"
    using Suc by simp
  have "foldl (wav_step l r) (Inr (H @ replicate (4 * n) 0)) [0..<Suc i]
      = wav_step l r (Inr (?pre @ replicate (4 * (n - i)) 0)) i"
    using ih by simp
  also have "\<dots> = Inr ((?pre @ wav_frame l r i) @ replicate (4 * (n - i) - 4) 0)"
    using len k by (rule wav_step_at_end)
  finally show ?case by (simp add: r)
qed


lemma buffer_write_filled:
  "length pre = off \<Longrightarrow> length str \<le> k \<Longrightarrow>
   buffer_write str off (Inr (filled pre k)) = Inr (filled (pre @ char_codes str) (k - length str))"
  unfolding filled_def by (rule buffer_write_at_end)

lemma writeUInt32LE_filled:
  "length pre = off \<Longrightarrow> 4 \<le> k \<Longrightarrow> 0 \<le> v \<Longrightarrow> v \<le> 4294967295 \<Longrightarrow>
   writeUInt32LE v off (Inr (filled pre k)) = Inr (filled (pre @ le_bytes 4 v) (k - 4))"
  unfolding filled_def by (rule writeUInt32LE_at_end)

lemma writeUInt16LE_filled:
  "length pre = off \<Longrightarrow> 2 \<le> k \<Longrightarrow> 0 \<le> v \<Longrightarrow> v \<le> 65535 \<Longrightarrow>
   writeUInt16LE v off (Inr (filled pre k)) = Inr (filled (pre @ le_bytes 2 v) (k - 2))"
  unfolding filled_def by (rule writeUInt16LE_at_end)

lemma length_wav_header [simp]: "length (wav_header rate d) = 44"
  by (simp add: wav_header_def)

lemma writeWav_header:
  assumes "0 \<le> rate" "rate * 4 \<le> 4294967295" "36 + int n * 4 \<le> 4294967295"
  shows "writeUInt32LE (int n * 4) 40
          (buffer_write ''data'' 36
            (writeUInt16LE 16 34
              (writeUInt16LE 4 32
                (writeUInt32LE (rate * 4) 28
                  (writeUInt32LE rate 24
                    (writeUInt16LE 2 22
                      (writeUInt16LE 1 20
                        (writeUInt32LE 16 16
                          (buffer_write ''fmt '' 12
                            (buffer_write ''WAVE'' 8
                              (writeUInt32LE (36 + int n * 4) 4
                                (buffer_write ''RIFF'' 0 (Inr (filled [] (44 + n * 4)))))))))))))))
         = Inr (filled (wav_header rate (int n * 4)) (n * 4))"
  using assms
  by (simp add: buffer_write_filled writeUInt32LE_filled writeUInt16LE_filled wav_header_def)

lemma writeWav_bytes:
  assumes "rate = (case sampleRate of None \<Rightarrow> 44100 | Some r \<Rightarrow> int r)"
      and "rate * 4 \<le> 4294967295" "36 + int (length l) * 4 \<le> 4294967295"
  shows "writeWav l r sampleRate
           = Inr (wav_header rate (int (length l) * 4) @ concat (map (wav_frame l r) [0..<length l]))"
proof -
  have r0: "0 \<le> rate" using assms(1) by (simp split: option.splits)
  have "writeWav l r sampleRate
      = foldl (wav_step l r) (Inr (filled (wav_header rate (int (length l) * 4)) (4 * length l)))
          [0..<length l]"
    unfolding writeWav_def Let_def Buffer_alloc_def assms(1) [symmetric]
    using writeWav_header [OF r0 assms(2,3)] by (simp add: filled_def mult.commute)
  also have "\<dots> = Inr ((wav_header rate (int (length l) * 4)
        @ concat (map (wav_frame l r) [0..<length l])) @ replicate (4 * (length l - length l)) 0)"
    unfolding filled_def by (rule writeWav_loop) simp_all
  finally show ?thesis by simp
qed

lemma uint_byte_of_int: "uint (word_of_int k :: byte) = k mod 256"
  by (simp add: uint_word_of_int)

lemma le_bytes_2: "le_bytes 2 q = [word_of_int q, word_of_int (q div 256)]"
  by (simp add: le_bytes_def numeral_2_eq_2)

lemma int16_of_le_bytes:
  assumes "- 32768 \<le> q" "q \<le> 32767"
  shows "int16_of (le_bytes 2 q) = q"
proof -
  have "q mod (256 * 256) = 256 * (q div 256 mod 256) + q mod 256"
    by (rule zmod_zmult2_eq) simp
  then have "q mod 256 + 256 * (q div 256 mod 256) = q mod 65536" by simp
  then have u: "uint (le_bytes 2 q ! 0) + 256 * uint (le_bytes 2 q ! 1) = q mod 65536"
    by (simp add: le_bytes_2 uint_byte_of_int)
  show ?thesis
  proof (cases "0 \<le> q")
    case True
    then have "q mod 65536 = q" using assms by simp
    then show ?thesis using u assms by (simp add: int16_of_def Let_def)
  next
    case False
    then have "q mod 65536 = q + 65536" using assms
      by (smt (verit) mod_add_self2 mod_pos_pos_trivial)
    then show ?thesis using u False assms by (simp add: int16_of_def Let_def)
  qed
qed

lemma int_sample_range: "- 32768 \<le> int_sample v" "int_sample v \<le> 32767"
proof -
  show "- 32768 \<le> int_sample v"
  proof (cases v)
    case (Num x)
    define s where "s = max (- 1) (min 1 x)"
    have s: "- 1 \<le> s" "s \<le> 1" by (simp_all add: s_def)
    have a: "- 32768 \<le> \<lceil>s * 32768\<rceil>" using s by (simp add: le_ceiling_iff)
    have b: "- 32768 \<le> \<lfloor>s * 32767\<rfloor>" if "\<not> s < 0" using that by (simp add: le_floor_iff)
    show ?thesis using a b by (simp add: Num int_sample_def Let_def s_def [symmetric])
  next
    case NaN
    then show ?thesis by (simp add: int_sample_def)
  qed
  show "int_sample v \<le> 32767"
  proof (cases v)
    case (Num x)
    define s where "s = max (- 1) (min 1 x)"
    have s: "- 1 \<le> s" "s \<le> 1" by (simp_all add: s_def)
    have a: "\<lceil>s * 32768\<rceil> \<le> 32767" if "s < 0"
    proof -
      have "s * 32768 \<le> 0" using that by simp
      then have "\<lceil>s * 32768\<rceil> \<le> 0" by (simp add: ceiling_le_iff)
      then show ?thesis by simp
    qed
    have b: "\<lfloor>s * 32767\<rfloor> \<le> 32767" using s by (simp add: floor_le_iff)
    show ?thesis using a b by (simp add: Num int_sample_def Let_def s_def [symmetric])
  next
    case NaN
    then show ?thesis by (simp add: int_sample_def)
  qed
qed

lemma setInt16_filled:
  "length pre = off \<Longrightarrow> 2 \<le> k \<Longrightarrow>
   setInt16 off v (filled pre k) = filled (pre @ le_bytes 2 v) (k - 2)"
  unfolding filled_def setInt16_def by (simp add: put_at_end)

lemma setUint16_filled:
  "length pre = off \<Longrightarrow> 2 \<le> k \<Longrightarrow>
   setUint16 off v (filled pre k) = filled (pre @ le_bytes 2 v) (k - 2)"
  unfolding filled_def setUint16_def by (simp add: put_at_end)

lemma setUint32_filled:
  "length pre = off \<Longrightarrow> 4 \<le> k \<Longrightarrow>
   setUint32 off v (filled pre k) = filled (pre @ le_bytes 4 v) (k - 4)"
  unfolding filled_def setUint32_def by (simp add: put_at_end)

lemma writeString_filled:
  "length pre = off \<Longrightarrow> length str \<le> k \<Longrightarrow>
   writeString (filled pre k) off str = filled (pre @ char_codes str) (k - length str)"
  unfolding filled_def writeString_def by (simp add: put_at_end)

lemma length_frame_bytes [simp]: "length (frame_bytes h chans i) = 2 * length chans"
  by (induction chans) (simp_all add: frame_bytes_def)

lemma write_frame_filled:
  "length pre = 44 + index \<Longrightarrow> 2 * length chans \<le> k \<Longrightarrow>
   write_frame h chans (filled pre k, index) i
     = (filled (pre @ frame_bytes h chans i) (k - 2 * length chans), index + 2 * length chans)"
proof (induction chans arbitrary: pre k index)
  case Nil
  show ?case by (simp add: write_frame_def frame_bytes_def)
next
  case (Cons c cs)
  let ?b = "le_bytes 2 (int_sample (element (h ! c) i))"
  have k: "2 \<le> k" using Cons.prems(2) by simp
  have s: "setInt16 (44 + index) (int_sample (element (h ! c) i)) (filled pre k)
      = filled (pre @ ?b) (k - 2)"
    using Cons.prems(1) k by (intro setInt16_filled) simp_all
  have "write_frame h (c # cs) (filled pre k, index) i
      = write_frame h cs (filled (pre @ ?b) (k - 2), index + 2) i"
    by (simp add: write_frame_def s)
  also have "\<dots> = (filled ((pre @ ?b) @ frame_bytes h cs i) (k - 2 - 2 * length cs),
                     index + 2 + 2 * length cs)"
    using Cons.prems by (intro Cons.IH) simp_all
  finally show ?case by (simp add: frame_bytes_def)
qed

lemma length_concat_frame_bytes:
  "length (concat (map (frame_bytes h chans) [0..<i])) = 2 * length chans * i"
  by (induction i) (simp_all add: algebra_simps)

lemma bufferToWav_loop:
  assumes "length H = 44" "i \<le> n"
  shows "foldl (write_frame h chans) (filled H (2 * length chans * n), 0) [0..<i]
         = (filled (H @ concat (map (frame_bytes h chans) [0..<i])) (2 * length chans * (n - i)),
            2 * length chans * i)"
  using assms(2)
proof (induction i)
  case 0
  show ?case by simp
next
  case (Suc i)
  let ?pre = "H @ concat (map (frame_bytes h chans) [0..<i])"
  have len: "length ?pre = 44 + 2 * length chans * i"
    using assms(1) by (simp add: length_concat_frame_bytes)
  have "n - i = Suc (n - Suc i)" using Suc.prems by simp
  then have r: "2 * length chans * (n - i) = 2 * length chans * (n - Suc i) + 2 * length chans"
    by simp
  have k: "2 * length chans \<le> 2 * length chans * (n - i)" using r by simp
  have ih: "foldl (write_frame h chans) (filled H (2 * length chans * n), 0) [0..<i]
      = (filled ?pre (2 * length chans * (n - i)), 2 * length chans * i)"
    using Suc by simp
  have "foldl (write_frame h chans) (filled H (2 * length chans * n), 0) [0..<Suc i]
      = write_frame h chans (filled ?pre (2 * length chans * (n - i)), 2 * length chans * i) i"
    using ih by simp
  also have "\<dots> = (filled (?pre @ frame_bytes h chans i)
                       (2 * length chans * (n - i) - 2 * length chans),
                     2 * length chans * i + 2 * length chans)"
    using len k by (rule write_frame_filled)
  finally show ?case using r by simp
qed

lemma bufferToWav_header:
  "setUint32 40 d (writeString (setUint16 34 16 (setUint16 32 4 (setUint32 28 (rate * 4) (setUint32 24 rate (setUint16 22 2 (setUint16 20 1 (setUint32 16 16 (writeString (writeString (setUint32 4 (36 + d) (writeString (filled [] (44 + n * 4)) 0 ''RIFF'')) 8 ''WAVE'') 12 ''fmt '')))))))) 36 ''data'')
   = filled (wav_header rate d) (n * 4)"
  by (simp add: writeString_filled setUint32_filled setUint16_filled wav_header_def)

lemma bufferToWav_stereo:
  assumes "channels buffer = [cl, cr]"
  shows "bufferToWav h buffer
           = wav_header (int (sample_rate buffer)) (int (frames buffer) * 4)
               @ concat (map (frame_bytes h [cl, cr]) [0..<frames buffer])"
proof -
  let ?n = "frames buffer"
  let ?H = "wav_header (int (sample_rate buffer)) (int ?n * 4)"
  have a: "nat (44 + int ?n * 4) = 44 + ?n * 4" by simp
  have "bufferToWav h buffer
      = fst (foldl (write_frame h [cl, cr]) (filled ?H (?n * 4), 0) [0..<?n])"
    unfolding bufferToWav_def Let_def numberOfChannels_def assms
    using bufferToWav_header [of "int ?n * 4" "int (sample_rate buffer)" ?n]
    by (simp add: a filled_def)
  also have "foldl (write_frame h [cl, cr]) (filled ?H (2 * length [cl, cr] * ?n), 0) [0..<?n]
      = (filled (?H @ concat (map (frame_bytes h [cl, cr]) [0..<?n]))
           (2 * length [cl, cr] * (?n - ?n)), 2 * length [cl, cr] * ?n)"
    by (rule bufferToWav_loop) simp_all
  then have "fst (foldl (write_frame h [cl, cr]) (filled ?H (?n * 4), 0) [0..<?n])
      = ?H @ concat (map (frame_bytes h [cl, cr]) [0..<?n])"
    by (simp add: filled_def mult.commute)
  finally show ?thesis .
qed

lemma le_bytes_4:
  "le_bytes 4 v = [word_of_int v, word_of_int (v div 256), word_of_int (v div 65536),
                   word_of_int (v div 16777216)]"
  by (simp add: le_bytes_def numeral_eq_Suc)

lemma int_sample_clamped: "int_sample (Num x) = int_sample (Num (max (- 1) (min 1 x)))"
  by (simp add: int_sample_def Let_def)

text \<open>
  C4 (as the code has it). Both exporters produce exactly the 44-byte header with the chunk
  descriptors RIFF, WAVE, fmt and data, little-endian fields, PCM format 1, 2 channels,
  block size 4 and 16 bits per sample, followed by the frames in order, each the left
  sample and then the right sample as little-endian 16-bit numbers: \<^verbatim>\<open>writeWav\<close> whenever
  the sizes fit the 32-bit fields (it throws otherwise), \<^verbatim>\<open>AudioMixer._bufferToWav\<close> for a
  buffer of two channels, as \<^verbatim>\<open>export\<close> renders. \<^verbatim>\<open>writeWav\<close> scales a sample by 32767
  and floors it, and clamps the integer to [-32768, 32767]; \<^verbatim>\<open>_bufferToWav\<close> clamps the
  sample to [-1, 1] before it scales and truncates it. In both, the stored 16 bits read
  back as the very integer computed: no sample wraps around.
\<close>

theorem wav_export_layout:
  "(rate = (case sampleRate of None \<Rightarrow> 44100 | Some r \<Rightarrow> int r) \<and>
    rate * 4 \<le> 4294967295 \<and> 36 + int (length l) * 4 \<le> 4294967295 \<longrightarrow>
      writeWav l r sampleRate
        = Inr (wav_header rate (int (length l) * 4) @ concat (map (wav_frame l r) [0..<length l]))) \<and>
   (channels buffer = [cl, cr] \<longrightarrow>
      bufferToWav h buffer
        = wav_header (int (sample_rate buffer)) (int (frames buffer) * 4)
            @ concat (map (frame_bytes h [cl, cr]) [0..<frames buffer])) \<and>
   length (wav_header rate d) = 44 \<and>
   wav_frame l r i = le_bytes 2 (wav_sample (element l i)) @ le_bytes 2 (wav_sample (element r i)) \<and>
   frame_bytes h [cl, cr] i
     = le_bytes 2 (int_sample (element (h ! cl) i)) @ le_bytes 2 (int_sample (element (h ! cr) i)) \<and>
   wav_sample (Num x) = max (- 32768) (min 32767 \<lfloor>x * 32767\<rfloor>) \<and>
   int_sample (Num x) = int_sample (Num (max (- 1) (min 1 x))) \<and>
   int16_of (le_bytes 2 (wav_sample v)) = wav_sample v \<and>
   int16_of (le_bytes 2 (int_sample v)) = int_sample v"
proof (intro conjI impI)
  assume a: "rate = (case sampleRate of None \<Rightarrow> 44100 | Some r \<Rightarrow> int r) \<and>
    rate * 4 \<le> 4294967295 \<and> 36 + int (length l) * 4 \<le> 4294967295"
  show "writeWav l r sampleRate
        = Inr (wav_header rate (int (length l) * 4) @ concat (map (wav_frame l r) [0..<length l]))"
    using a by (intro writeWav_bytes) simp_all
next
  assume "channels buffer = [cl, cr]"
  then show "bufferToWav h buffer
        = wav_header (int (sample_rate buffer)) (int (frames buffer) * 4)
            @ concat (map (frame_bytes h [cl, cr]) [0..<frames buffer])"
    by (rule bufferToWav_stereo)
next
  show "length (wav_header rate d) = 44" by simp
  show "wav_frame l r i = le_bytes 2 (wav_sample (element l i)) @ le_bytes 2 (wav_sample (element r i))"
    by (simp add: wav_frame_def)
  show "frame_bytes h [cl, cr] i
     = le_bytes 2 (int_sample (element (h ! cl) i)) @ le_bytes 2 (int_sample (element (h ! cr) i))"
    by (simp add: frame_bytes_def)
  show "wav_sample (Num x) = max (- 32768) (min 32767 \<lfloor>x * 32767\<rfloor>)"
    by (simp add: wav_sample_def)
  show "int_sample (Num x) = int_sample (Num (max (- 1) (min 1 x)))"
    by (rule int_sample_clamped)
  show "int16_of (le_bytes 2 (wav_sample v)) = wav_sample v"
    using wav_sample_range by (rule int16_of_le_bytes)
  show "int16_of (le_bytes 2 (int_sample v)) = int_sample v"
    using int_sample_range by (rule int16_of_le_bytes)
qed

theorem wav_export_layout_witness:
  "writeWav [1, - 2] [1 / 2, - 1] None
     = Inr [82, 73, 70, 70, 44, 0, 0, 0, 87, 65, 86, 69, 102, 109, 116, 32, 16, 0, 0, 0, 1, 0, 2, 0,
            68, 172, 0, 0, 16, 177, 2, 0, 4, 0, 16, 0, 100, 97, 116, 97, 8, 0, 0, 0,
            255, 127, 255, 63, 0, 128, 1, 128] \<and>
   bufferToWav [[1, - 2], [1 / 2, - 1]] \<lparr>sample_rate = 44100, frames = 2, channels = [0, 1]\<rparr>
     = [82, 73, 70, 70, 44, 0, 0, 0, 87, 65, 86, 69, 102, 109, 116, 32, 16, 0, 0, 0, 1, 0, 2, 0,
        68, 172, 0, 0, 16, 177, 2, 0, 4, 0, 16, 0, 100, 97, 116, 97, 8, 0, 0, 0,
        255, 127, 255, 63, 0, 128, 0, 128]"
proof -
  have hd: "wav_header 44100 8 =
    [82, 73, 70, 70, 44, 0, 0, 0, 87, 65, 86, 69, 102, 109, 116, 32, 16, 0, 0, 0, 1, 0, 2, 0,
     68, 172, 0, 0, 16, 177, 2, 0, 4, 0, 16, 0, 100, 97, 116, 97, 8, 0, 0, 0]"
    by (simp add: wav_header_def le_bytes_2 le_bytes_4 char_codes_def)
  note t = wav_export_layout [where l = "[1, - 2]" and r = "[1 / 2, - 1]" and sampleRate = None
      and rate = 44100 and h = "[[1, - 2], [1 / 2, - 1]]" and cl = 0 and cr = 1
      and buffer = "\<lparr>sample_rate = 44100, frames = 2, channels = [0, 1]\<rparr>"]
  have a: "writeWav [1, - 2] [1 / 2, - 1] None
      = Inr (wav_header 44100 (int (length [1, - 2 :: real]) * 4)
             @ concat (map (wav_frame [1, - 2] [1 / 2, - 1]) [0..<length [1, - 2 :: real]]))"
    by (rule mp [OF t [THEN conjunct1]]) simp
  have b: "bufferToWav [[1, - 2], [1 / 2, - 1]] \<lparr>sample_rate = 44100, frames = 2, channels = [0, 1]\<rparr>
      = wav_header (int (sample_rate \<lparr>sample_rate = 44100, frames = 2, channels = [0, 1]\<rparr>))
          (int (frames \<lparr>sample_rate = 44100, frames = 2, channels = [0, 1]\<rparr>) * 4)
          @ concat (map (frame_bytes [[1, - 2], [1 / 2, - 1]] [0, 1])
                      [0..<frames \<lparr>sample_rate = 44100, frames = 2, channels = [0, 1]\<rparr>])"
    by (rule mp [OF t [THEN conjunct2, THEN conjunct1]]) simp
  show ?thesis
    unfolding a b
    by (simp add: hd upt_2 wav_frame_def frame_bytes_def le_bytes_2 wav_sample_def int_sample_def
        element_def)
qed

text \<open>
  C4 as stated fails in \<^verbatim>\<open>writeWav\<close>, which does not clamp a sample to [-1, 1] before it
  quantizes it: the left sample -2 is stored as -32768 (bytes 0, 128), while -1, which is
  -2 clamped, is stored as -32767 (bytes 1, 128), here as the right sample.
\<close>

theorem writeWav_clamps_after_scaling:
  "writeWav [- 2] [- 1] None
     = Inr [82, 73, 70, 70, 40, 0, 0, 0, 87, 65, 86, 69, 102, 109, 116, 32, 16, 0, 0, 0, 1, 0, 2, 0,
            68, 172, 0, 0, 16, 177, 2, 0, 4, 0, 16, 0, 100, 97, 116, 97, 4, 0, 0, 0,
            0, 128, 1, 128] \<and>
   max (- 1) (min 1 (- 2)) = (- 1 :: real)"
proof -
  have hd: "wav_header 44100 4 =
    [82, 73, 70, 70, 40, 0, 0, 0, 87, 65, 86, 69, 102, 109, 116, 32, 16, 0, 0, 0, 1, 0, 2, 0,
     68, 172, 0, 0, 16, 177, 2, 0, 4, 0, 16, 0, 100, 97, 116, 97, 4, 0, 0, 0]"
    by (simp add: wav_header_def le_bytes_2 le_bytes_4 char_codes_def)
  have f: "concat (map (wav_frame [- 2] [- 1]) [0..<1]) = [0, 128, 1, 128]"
    by (simp add: wav_frame_def le_bytes_2 wav_sample_def element_def)
  have "writeWav [- 2] [- 1] None
      = Inr (wav_header 44100 4 @ concat (map (wav_frame [- 2] [- 1]) [0..<1]))"
    using writeWav_bytes [where l = "[- 2]" and r = "[- 1]" and sampleRate = None and rate = 44100]
    by simp
  then show ?thesis unfolding hd f by simp
qed

section \<open>Batch rendering is deterministic\<close>

lemma draw_frame_same_measure:
  "measureText env1 = measureText env2 \<Longrightarrow> draw_frame env1 cfg k = draw_frame env2 cfg k"
  by (simp add: draw_frame_def)

lemma frame_loop_frames:
  "frame_loop env cfg k = map (draw_frame env cfg) [k..<nat \<lceil>totalFrames cfg\<rceil>]"
proof (induction env cfg k rule: frame_loop.induct)
  case (1 env cfg frameNum)
  show ?case
  proof (cases "real frameNum < totalFrames cfg")
    case True
    then have "int frameNum < \<lceil>totalFrames cfg\<rceil>" by (simp add: less_ceiling_iff)
    then have lt: "frameNum < nat \<lceil>totalFrames cfg\<rceil>" by linarith
    have "frame_loop env cfg frameNum
        = draw_frame env cfg frameNum # frame_loop env cfg (Suc frameNum)"
      using True by (subst frame_loop.simps) simp
    also have "\<dots> = draw_frame env cfg frameNum
        # map (draw_frame env cfg) [Suc frameNum..<nat \<lceil>totalFrames cfg\<rceil>]"
      using "1.IH" [OF True] by simp
    finally show ?thesis using lt by (simp add: upt_conv_Cons)
  next
    case False
    then have "\<not> int frameNum < \<lceil>totalFrames cfg\<rceil>" by (simp add: less_ceiling_iff)
    then have "nat \<lceil>totalFrames cfg\<rceil> \<le> frameNum" by linarith
    moreover have "frame_loop env cfg frameNum = []"
      using False by (subst frame_loop.simps) simp
    ultimately show ?thesis by simp
  qed
qed

lemma frames_drawn_generateVideo:
  "frames_drawn (generateVideo env cfg)
     = map (draw_frame env cfg) [0..<nat \<lceil>totalFrames cfg\<rceil>]"
  by (simp add: generateVideo_def frame_loop_frames)

lemma totalFrames_whole:
  assumes "cfg_duration cfg * 30 = real n" "n < 2 ^ 53"
  shows "totalFrames cfg = real n"
  using assms by (simp add: totalFrames_def fps_def dbl_of_nat)

text \<open>
  C8 (as the code has it). Two batch renderings of one configuration, with the same canvas
  fonts and at different wall-clock times, draw the same frames: the calls of frame \<open>k\<close>
  are those of the loop body for the index \<open>k\<close> and the configuration, whatever the clock
  says, time entering only as the frame index and \<open>progress = frameNum / totalFrames\<close>. The
  frame rate is the constant 30 of \<^verbatim>\<open>generateVideo\<close>. The loop draws \<open>\<lceil>totalFrames\<rceil>\<close> frames,
  where \<open>totalFrames\<close> is the double nearest to \<open>duration \<times> 30\<close>: exactly \<open>duration \<times> 30\<close>
  frames whenever that is a whole number. The frames go to the encoder at 30 frames per
  second.
\<close>

theorem batch_render_deterministic:
  "totalFrames cfg \<le> 2 ^ 53 \<longrightarrow>
   (measureText env1 = measureText env2 \<longrightarrow>
      frames_drawn (generateVideo env1 cfg) = frames_drawn (generateVideo env2 cfg)) \<and>
   length (frames_drawn (generateVideo env cfg)) = nat \<lceil>dbl (cfg_duration cfg * 30)\<rceil> \<and>
   (cfg_duration cfg * 30 = real n \<and> n < 2 ^ 53 \<longrightarrow>
      length (frames_drawn (generateVideo env cfg)) = n) \<and>
   (\<forall>k < length (frames_drawn (generateVideo env cfg)).
      frames_drawn (generateVideo env cfg) ! k = draw_frame (env\<lparr>clock := any_time\<rparr>) cfg k) \<and>
   framerate (generateVideo env cfg) = 30"
proof (intro conjI impI allI)
  assume m: "measureText env1 = measureText env2"
  show "frames_drawn (generateVideo env1 cfg) = frames_drawn (generateVideo env2 cfg)"
    unfolding frames_drawn_generateVideo
    using draw_frame_same_measure [OF m] by simp
next
  show "length (frames_drawn (generateVideo env cfg)) = nat \<lceil>dbl (cfg_duration cfg * 30)\<rceil>"
    by (simp add: frames_drawn_generateVideo totalFrames_def fps_def)
next
  assume d: "cfg_duration cfg * 30 = real n \<and> n < 2 ^ 53"
  then have "totalFrames cfg = real n" by (intro totalFrames_whole) simp_all
  then show "length (frames_drawn (generateVideo env cfg)) = n"
    by (simp add: frames_drawn_generateVideo)
next
  fix k
  assume "k < length (frames_drawn (generateVideo env cfg))"
  then have "frames_drawn (generateVideo env cfg) ! k = draw_frame env cfg k"
    by (simp add: frames_drawn_generateVideo)
  also have "\<dots> = draw_frame (env\<lparr>clock := any_time\<rparr>) cfg k"
    by (rule draw_frame_same_measure) simp
  finally show "frames_drawn (generateVideo env cfg) ! k
      = draw_frame (env\<lparr>clock := any_time\<rparr>) cfg k" .
next
  show "framerate (generateVideo env cfg) = 30" by (simp add: generateVideo_def fps_def)
qed

theorem batch_render_deterministic_witness:
  "frames_drawn (generateVideo \<lparr>clock = ''2026-01-01T00:00:00.000Z'', measureText = fixed_width\<rparr>
                   hello_config)
     = frames_drawn (generateVideo \<lparr>clock = ''2026-06-30T12:00:00.000Z'', measureText = fixed_width\<rparr>
                       hello_config) \<and>
   length (frames_drawn (generateVideo \<lparr>clock = ''2026-01-01T00:00:00.000Z'', measureText = fixed_width\<rparr>
                           hello_config)) = 150 \<and>
   createdAt (generateVideo \<lparr>clock = ''2026-01-01T00:00:00.000Z'', measureText = fixed_width\<rparr>
                hello_config)
     \<noteq> createdAt (generateVideo \<lparr>clock = ''2026-06-30T12:00:00.000Z'', measureText = fixed_width\<rparr>
                     hello_config)"
proof -
  have d: "cfg_duration hello_config * 30 = real 150 \<and> (150 :: nat) < 2 ^ 53"
    by (simp add: hello_config_def)
  have "totalFrames hello_config = real 150" using d by (intro totalFrames_whole) simp_all
  then have b: "totalFrames hello_config \<le> 2 ^ 53" by simp
  note t = mp [OF batch_render_deterministic
    [where ?env1.0 = "\<lparr>clock = ''2026-01-01T00:00:00.000Z'', measureText = fixed_width\<rparr>"
       and ?env2.0 = "\<lparr>clock = ''2026-06-30T12:00:00.000Z'', measureText = fixed_width\<rparr>"
       and env = "\<lparr>clock = ''2026-01-01T00:00:00.000Z'', measureText = fixed_width\<rparr>"
       and cfg = hello_config and n = 150] b]
  have a: "frames_drawn (generateVideo \<lparr>clock = ''2026-01-01T00:00:00.000Z'', measureText = fixed_width\<rparr>
                   hello_config)
     = frames_drawn (generateVideo \<lparr>clock = ''2026-06-30T12:00:00.000Z'', measureText = fixed_width\<rparr>
                       hello_config)"
    by (rule mp [OF t [THEN conjunct1]]) simp
  have c: "length (frames_drawn (generateVideo
              \<lparr>clock = ''2026-01-01T00:00:00.000Z'', measureText = fixed_width\<rparr> hello_config)) = 150"
    by (rule mp [OF t [THEN conjunct2, THEN conjunct2, THEN conjunct1] d])
  have e: "createdAt (generateVideo \<lparr>clock = ''2026-01-01T00:00:00.000Z'', measureText = fixed_width\<rparr>
                hello_config)
     \<noteq> createdAt (generateVideo \<lparr>clock = ''2026-06-30T12:00:00.000Z'', measureText = fixed_width\<rparr>
                     hello_config)"
    by (simp add: generateVideo_def)
  show ?thesis using a c e by (intro conjI)
qed

text \<open>
  C8 as stated fails for a duration of 8.3 seconds. 8.3 \<times> 30 is 249, but the product of
  the doubles is rounded to the next double above 249, so frame 249 is drawn too: 250 frames.
\<close>

theorem batch_render_frame_count_rounds_up:
  "(83 / 10 :: real) * 30 = 249 \<and>
   totalFrames (hello_config\<lparr>cfg_duration := dbl (83 / 10)\<rparr>) = 249 + 1 / 2 ^ 45 \<and>
   length (frames_drawn (generateVideo
      \<lparr>clock = ''2026-01-01T00:00:00.000Z'', measureText = fixed_width\<rparr>
      (hello_config\<lparr>cfg_duration := dbl (83 / 10)\<rparr>))) = 250"
proof -
  have t: "totalFrames (hello_config\<lparr>cfg_duration := dbl (83 / 10)\<rparr>) = 249 + 1 / 2 ^ 45"
    by (simp add: totalFrames_def fps_def float_eval)
  have "\<lceil>249 + 1 / 2 ^ 45 :: real\<rceil> = 250" by (simp add: ceiling_eq_iff)
  then show ?thesis unfolding frames_drawn_generateVideo t by simp
qed

end
